theory Spec2Isabelle
  imports Complex_Main "HOL-Library.Multiset"
begin

section \<open>Bank simulation: a shallow embedding of the C++ sources\<close>

text \<open>
  The development follows the repository: \<^verbatim>\<open>Event.cpp\<close>, \<^verbatim>\<open>BinaryHeap.cpp\<close>,
  \<^verbatim>\<open>PriorityQueue.cpp\<close>, \<^verbatim>\<open>Queue.cpp\<close> and the driver \<^verbatim>\<open>BankSimApp.cpp\<close>.
  Member functions become functions that take the object and return the updated object.
\<close>

subsection \<open>Machine integers and the outcome of a call\<close>

text \<open>
  \<^verbatim>\<open>unsigned int\<close> is 32 bits wide: its arithmetic wraps around modulo \<open>2 ^ 32\<close>.
  Values are kept as \<open>nat\<close> and every operation of the source is followed by \<open>u32\<close>.
\<close>

definition u32 :: "nat \<Rightarrow> nat" where
  "u32 n = n mod 4294967296"

text \<open>The unsigned subtraction \<^verbatim>\<open>a - b\<close> of two values below \<open>2 ^ 32\<close>.\<close>

definition u32_minus :: "nat \<Rightarrow> nat \<Rightarrow> nat" where
  "u32_minus a b = u32 (a + 4294967296 - b)"

text \<open>
  Within the range of the type the wrap-around does nothing; the index of a parent,
  \<^verbatim>\<open>(indexOfChild - 1) / 2\<close>, is smaller than the index of the child, which is what
  makes the loop of \<^verbatim>\<open>reHeapUp\<close> end.
\<close>

lemma mod_pred: "0 < i \<Longrightarrow> i < M \<Longrightarrow> (i + M - 1) mod M = i - (1::nat)"
proof -
  assume a: "0 < i" "i < M"
  then have "i + M - 1 = (i - 1) + M" by simp
  then have "(i + M - 1) mod M = (i - 1) mod M" by (simp only: mod_add_self2)
  with a show ?thesis by simp
qed

lemma u32_minus_1: "0 < i \<Longrightarrow> i < 4294967296 \<Longrightarrow> u32_minus i 1 = i - 1"
  unfolding u32_minus_def u32_def by (rule mod_pred)

lemma u32_id: "n < 4294967296 \<Longrightarrow> u32 n = n"
  by (simp add: u32_def)

lemma indexOfParent_less: "0 < i \<Longrightarrow> u32_minus i 1 div 2 < i"
proof (cases "i < 4294967296")
  case True
  assume "0 < i"
  with True have "u32_minus i 1 = i - 1" by (rule_tac u32_minus_1)
  with \<open>0 < i\<close> show ?thesis by simp
next
  case False
  have "u32_minus i 1 < 4294967296" unfolding u32_minus_def u32_def by (rule mod_less_divisor) simp
  then have "u32_minus i 1 div 2 < 4294967296" by simp
  with False show ?thesis by simp
qed

lemma u32_minus_Suc0: "0 < i \<Longrightarrow> i < 4294967296 \<Longrightarrow> u32_minus i (Suc 0) = i - Suc 0"
  using u32_minus_1 [of i] by simp

lemma u32_minus_less: "0 < c \<Longrightarrow> u32_minus c 1 < c"
proof (cases "c < 4294967296")
  case True
  assume "0 < c"
  with True have "u32_minus c 1 = c - 1" by (rule_tac u32_minus_1)
  with \<open>0 < c\<close> show ?thesis by simp
next
  case False
  have "u32_minus c 1 < 4294967296" unfolding u32_minus_def u32_def by (rule mod_less_divisor) simp
  with False show ?thesis by simp
qed

text \<open>
  \<^verbatim>\<open>int\<close> is 32 bits wide and signed: a result outside its range is undefined
  behaviour in C++, so the checked operations return \<open>None\<close> there.
\<close>

definition INT_MAX :: int where
  "INT_MAX = 2147483647"

definition INT_MIN :: int where
  "INT_MIN = - 2147483648"

definition int_checked :: "int \<Rightarrow> int option" where
  "int_checked x = (if INT_MIN \<le> x \<and> x \<le> INT_MAX then Some x else None)"

text \<open>
  The only exception of the repository is \<^verbatim>\<open>EmptyDataCollectionException\<close>. A call
  either returns a value and leaves the object in a new state, or throws and leaves the
  object in the state it had at the \<^verbatim>\<open>throw\<close>, or runs into undefined behaviour
  (a write past the end of an array, a null pointer dereferenced, signed overflow,
  recursion without end), after which nothing is known.
\<close>

datatype exn = EmptyDataCollectionException

datatype ('r, 's) outcome = Returns 'r 's | Throws exn 's | Undefined

text \<open>
  A call on a member object: the enclosing object holds the member's new state
  afterwards, whether the call returned or threw.
\<close>

definition on_member :: "('s \<Rightarrow> 't) \<Rightarrow> ('r, 's) outcome \<Rightarrow> ('r, 't) outcome" where
  "on_member f res =
     (case res of
        Returns r s \<Rightarrow> Returns r (f s)
      | Throws e s \<Rightarrow> Throws e (f s)
      | Undefined \<Rightarrow> Undefined)"

subsection \<open>Event (Event.h, Event.cpp)\<close>

datatype EventType = ARRIVAL | DEPARTURE

record Event =
  type :: EventType
  time :: int
  length' :: int

text \<open>\<^verbatim>\<open>Event::Event()\<close>\<close>

definition Event0 :: Event where
  "Event0 = \<lparr>type = ARRIVAL, time = 0, length' = 0\<rparr>"

text \<open>\<^verbatim>\<open>Event::Event(EventType aType, int aTime)\<close>\<close>

definition Event2 :: "EventType \<Rightarrow> int \<Rightarrow> Event" where
  "Event2 aType aTime = \<lparr>type = aType, time = aTime, length' = 0\<rparr>"

text \<open>\<^verbatim>\<open>Event::Event(EventType aType, int aTime, int aLength)\<close>\<close>

definition Event3 :: "EventType \<Rightarrow> int \<Rightarrow> int \<Rightarrow> Event" where
  "Event3 aType aTime aLength =
     \<lparr>type = aType, time = aTime, length' = (if aType = ARRIVAL then aLength else 0)\<rparr>"

definition getType :: "Event \<Rightarrow> EventType" where
  "getType e = type e"

definition getTime :: "Event \<Rightarrow> int" where
  "getTime e = time e"

definition getLength :: "Event \<Rightarrow> int" where
  "getLength e = length' e"

definition setType :: "EventType \<Rightarrow> Event \<Rightarrow> Event" where
  "setType aType e = e\<lparr>type := aType\<rparr>"

definition setTime :: "int \<Rightarrow> Event \<Rightarrow> Event" where
  "setTime aTime e = e\<lparr>time := aTime\<rparr>"

definition setLength :: "int \<Rightarrow> Event \<Rightarrow> Event" where
  "setLength aLength e = e\<lparr>length' := (if type e = ARRIVAL then aLength else 0)\<rparr>"

definition isArrival :: "Event \<Rightarrow> bool" where
  "isArrival e \<longleftrightarrow> type e = ARRIVAL"

text \<open>\<^verbatim>\<open>Event::operator<=\<close>: by time, and at equal times an arrival before a departure.\<close>

definition Event_le :: "Event \<Rightarrow> Event \<Rightarrow> bool" where
  "Event_le e rhs =
     (if time e = getTime rhs
      then (type e = getType rhs) \<or> (type e = ARRIVAL \<and> getType rhs = DEPARTURE)
      else time e < getTime rhs)"

text \<open>\<^verbatim>\<open>Event::operator<\<close> and \<^verbatim>\<open>Event::operator>\<close>: by time only.\<close>

definition Event_less :: "Event \<Rightarrow> Event \<Rightarrow> bool" where
  "Event_less e other \<longleftrightarrow> time e < time other"

definition Event_greater :: "Event \<Rightarrow> Event \<Rightarrow> bool" where
  "Event_greater e other \<longleftrightarrow> time e > time other"

text \<open>
  The invariant of the data model: the service length is meaningful for arrivals only,
  a departure carries length 0.
\<close>

definition length_invariant :: "Event \<Rightarrow> bool" where
  "length_invariant e \<longleftrightarrow> (type e = DEPARTURE \<longrightarrow> length' e = 0)"

text \<open>A setter call, and a sequence of setter calls applied from left to right.\<close>

datatype setter = SetType EventType | SetTime int | SetLength int

fun apply_setter :: "Event \<Rightarrow> setter \<Rightarrow> Event" where
  "apply_setter e (SetType t) = setType t e"
| "apply_setter e (SetTime n) = setTime n e"
| "apply_setter e (SetLength n) = setLength n e"

definition apply_setters :: "Event \<Rightarrow> setter list \<Rightarrow> Event" where
  "apply_setters e cs = foldl apply_setter e cs"

subsection \<open>The element type of the templates\<close>

text \<open>
  \<^verbatim>\<open>BinaryHeap<ElementType>\<close> and \<^verbatim>\<open>PriorityQueue<ElementType>\<close> use three things
  of their element type: \<^verbatim>\<open>operator<\<close> (in \<^verbatim>\<open>reHeapDown\<close>), \<^verbatim>\<open>operator>\<close> (in
  \<^verbatim>\<open>reHeapUp\<close>) and the default constructor (in \<^verbatim>\<open>new ElementType[capacity]\<close>).
  The program instantiates the templates with \<^verbatim>\<open>Event\<close>.
\<close>

record 'a ElementType =
  operator_less :: "'a \<Rightarrow> 'a \<Rightarrow> bool"
  operator_greater :: "'a \<Rightarrow> 'a \<Rightarrow> bool"
  default_constructed :: 'a

definition Event_ops :: "Event ElementType" where
  "Event_ops =
     \<lparr>operator_less = Event_less, operator_greater = Event_greater,
      default_constructed = Event0\<rparr>"

text \<open>
  What the heap needs of the two operators to be an ordering: \<open>a > b\<close> is \<open>b < a\<close>,
  and \<open><\<close> is a strict weak order (asymmetric, and incomparability is transitive).
  \<open>at_most T a b\<close> is the heap's "a is less than or equal to b": a is not greater than b.
\<close>

definition strict_weak_order :: "'a ElementType \<Rightarrow> bool" where
  "strict_weak_order T \<longleftrightarrow>
     (\<forall>a b. operator_greater T a b = operator_less T b a) \<and>
     (\<forall>a b. operator_less T a b \<longrightarrow> \<not> operator_less T b a) \<and>
     (\<forall>a b c. operator_less T a c \<longrightarrow> operator_less T a b \<or> operator_less T b c)"

definition at_most :: "'a ElementType \<Rightarrow> 'a \<Rightarrow> 'a \<Rightarrow> bool" where
  "at_most T a b \<longleftrightarrow> \<not> operator_greater T a b"

subsection \<open>BinaryHeap (BinaryHeap.h, BinaryHeap.cpp)\<close>

text \<open>
  \<open>elements\<close> is the array the pointer refers to, with the length it was allocated
  with; \<open>capacity\<close> and \<open>elementCount\<close> are the two \<^verbatim>\<open>unsigned int\<close> members.
  Memory is unbounded: \<^verbatim>\<open>new\<close> does not fail.
\<close>

record 'a BinaryHeap =
  elements :: "'a list"
  capacity :: nat
  elementCount :: nat

text \<open>\<^verbatim>\<open>BinaryHeap(unsigned int capacity)\<close>: an array of default-constructed elements.\<close>

definition BinaryHeap_new :: "'a ElementType \<Rightarrow> nat \<Rightarrow> 'a BinaryHeap" where
  "BinaryHeap_new T cap =
     \<lparr>elements = replicate cap (default_constructed T), capacity = cap, elementCount = 0\<rparr>"

text \<open>\<^verbatim>\<open>std::swap(elements[i], elements[j])\<close>\<close>

definition std_swap :: "'a list \<Rightarrow> nat \<Rightarrow> nat \<Rightarrow> 'a list" where
  "std_swap es i j = es[i := es ! j, j := es ! i]"

text \<open>
  \<^verbatim>\<open>reHeapUp\<close>: the loop as a recursion on the index of the child. At index 0 the
  subtraction wraps around, and the loop condition stops before the array is read.
  \<^verbatim>\<open>insert\<close> calls it with an index inside the array, and the index only decreases,
  so every \<open>es ! i\<close> below reads an element of the array.
\<close>

function reHeapUp :: "'a ElementType \<Rightarrow> 'a list \<Rightarrow> nat \<Rightarrow> 'a list" where
  "reHeapUp T es indexOfChild =
     (let indexOfParent = u32_minus indexOfChild 1 div 2 in
      if indexOfChild > 0 \<and> operator_greater T (es ! indexOfParent) (es ! indexOfChild)
      then reHeapUp T (std_swap es indexOfChild indexOfParent) indexOfParent
      else es)"
  by pat_completeness auto
termination
proof (relation "measure (\<lambda>(T, es, i). i)")
  show "wf (measure (\<lambda>(T, es, i). i))" by simp
next
  fix T :: "'a ElementType" and es :: "'a list" and indexOfChild x :: nat
  assume "x = u32_minus indexOfChild 1 div 2"
    and "0 < indexOfChild \<and> operator_greater T (es ! x) (es ! indexOfChild)"
  then show "((T, std_swap es indexOfChild x, x), T, es, indexOfChild) \<in> measure (\<lambda>(T, es, i). i)"
    using indexOfParent_less [of indexOfChild] by simp
qed

declare reHeapUp.simps [simp del]

text \<open>
  \<^verbatim>\<open>reHeapDown\<close>: the recursion of the source, on the array and \<open>elementCount\<close> (\<open>n\<close>).
  The indices of the children wrap around at \<open>2 ^ 32\<close>, so the recursion need not end
  on every input: not returning is the value \<open>None\<close>. The array is read at indices
  below \<open>n\<close> only, and \<^verbatim>\<open>remove\<close> calls it with \<open>n\<close> below the length of the array.
\<close>

partial_function (option) reHeapDown :: "'a ElementType \<Rightarrow> nat \<Rightarrow> 'a list \<Rightarrow> nat \<Rightarrow> 'a list option" where
  "reHeapDown T n es indexOfRoot =
     (let indexOfLeftChild = u32 (2 * indexOfRoot + 1);
          indexOfRightChild = u32 (2 * indexOfRoot + 2);
          m = (if indexOfLeftChild < n \<and> operator_less T (es ! indexOfLeftChild) (es ! indexOfRoot)
               then indexOfLeftChild else indexOfRoot);
          indexOfMinChild = (if indexOfRightChild < n \<and> operator_less T (es ! indexOfRightChild) (es ! m)
               then indexOfRightChild else m)
      in if indexOfMinChild \<noteq> indexOfRoot
         then reHeapDown T n (std_swap es indexOfRoot indexOfMinChild) indexOfMinChild
         else Some es)"

definition BinaryHeap_getElementCount :: "'a BinaryHeap \<Rightarrow> nat" where
  "BinaryHeap_getElementCount h = elementCount h"

text \<open>
  \<^verbatim>\<open>expandHeap\<close>: the capacity is doubled (in 32 bits), a new array of that length is
  allocated and \<^verbatim>\<open>std::copy\<close> moves the first \<open>elementCount\<close> elements over; a copy
  that does not fit the new array writes past its end.
\<close>

definition expandHeap :: "'a ElementType \<Rightarrow> 'a BinaryHeap \<Rightarrow> (unit, 'a BinaryHeap) outcome" where
  "expandHeap T h =
     (let capacity' = u32 (capacity h * 2);
          newHeap = replicate capacity' (default_constructed T)
      in if elementCount h \<le> length (elements h) \<and> elementCount h \<le> length newHeap
         then Returns ()
           (h\<lparr>elements := take (elementCount h) (elements h) @ drop (elementCount h) newHeap,
              capacity := capacity'\<rparr>)
         else Undefined)"

text \<open>
  \<^verbatim>\<open>insert\<close>: the write \<^verbatim>\<open>elements[elementCount] = newElement\<close> is undefined behaviour
  when the index is not below the length of the array.
\<close>

definition BinaryHeap_insert ::
  "'a ElementType \<Rightarrow> 'a \<Rightarrow> 'a BinaryHeap \<Rightarrow> (bool, 'a BinaryHeap) outcome" where
  "BinaryHeap_insert T newElement h =
     (case (if elementCount h = capacity h then expandHeap T h else Returns () h) of
        Returns u h1 \<Rightarrow>
          if elementCount h1 < length (elements h1)
          then Returns True
            (h1\<lparr>elements :=
                  reHeapUp T ((elements h1)[elementCount h1 := newElement]) (elementCount h1),
                elementCount := u32 (elementCount h1 + 1)\<rparr>)
          else Undefined
      | Throws e h1 \<Rightarrow> Throws e h1
      | Undefined \<Rightarrow> Undefined)"

definition BinaryHeap_retrieve :: "'a BinaryHeap \<Rightarrow> ('a, 'a BinaryHeap) outcome" where
  "BinaryHeap_retrieve h =
     (if elementCount h = 0 then Throws EmptyDataCollectionException h
      else if 0 < length (elements h) then Returns (elements h ! 0) h
      else Undefined)"

definition BinaryHeap_remove :: "'a ElementType \<Rightarrow> 'a BinaryHeap \<Rightarrow> (unit, 'a BinaryHeap) outcome" where
  "BinaryHeap_remove T h =
     (if elementCount h = 0 then Throws EmptyDataCollectionException h
      else if elementCount h \<le> length (elements h)
      then
        (let h1 = h\<lparr>elements := (elements h)[0 := elements h ! (elementCount h - 1)],
                    elementCount := u32_minus (elementCount h) 1\<rparr>
         in if elementCount h1 > 0
            then (case reHeapDown T (elementCount h1) (elements h1) 0 of
                    Some es \<Rightarrow> Returns () (h1\<lparr>elements := es\<rparr>)
                  | None \<Rightarrow> Undefined)
            else Returns () h1)
      else Undefined)"

text \<open>
  A client loop: \<^verbatim>\<open>retrieve\<close> then \<^verbatim>\<open>remove\<close>, until the heap is empty, collecting
  the retrieved elements. Each \<^verbatim>\<open>remove\<close> that returns has decremented the count.
\<close>

lemma BinaryHeap_retrieve_Returns:
  "BinaryHeap_retrieve h = Returns x h1 \<Longrightarrow> h1 = h \<and> x = elements h ! 0 \<and> 0 < elementCount h"
  by (auto simp: BinaryHeap_retrieve_def split: if_splits)

lemma BinaryHeap_remove_elementCount:
  "BinaryHeap_remove T h = Returns u h' \<Longrightarrow> elementCount h' = u32_minus (elementCount h) 1"
  by (auto simp: BinaryHeap_remove_def Let_def split: if_splits option.splits)

function drain :: "'a ElementType \<Rightarrow> 'a BinaryHeap \<Rightarrow> ('a list, 'a BinaryHeap) outcome" where
  "drain T h =
     (if BinaryHeap_getElementCount h = 0 then Returns [] h
      else case BinaryHeap_retrieve h of
        Returns x h1 \<Rightarrow>
          (case BinaryHeap_remove T h1 of
             Returns u h2 \<Rightarrow>
               (case drain T h2 of
                  Returns xs h3 \<Rightarrow> Returns (x # xs) h3
                | Throws e h3 \<Rightarrow> Throws e h3
                | Undefined \<Rightarrow> Undefined)
           | Throws e h2 \<Rightarrow> Throws e h2
           | Undefined \<Rightarrow> Undefined)
      | Throws e h1 \<Rightarrow> Throws e h1
      | Undefined \<Rightarrow> Undefined)"
  by pat_completeness auto
termination
proof (relation "measure (\<lambda>(T, h). elementCount h)")
  show "wf (measure (\<lambda>(T, h). elementCount h))" by simp
next
  fix T :: "'a ElementType" and h h1 h2 :: "'a BinaryHeap" and x :: 'a and u :: unit
  assume "BinaryHeap_getElementCount h \<noteq> 0" and r: "BinaryHeap_retrieve h = Returns x h1"
    and "BinaryHeap_remove T h1 = Returns u h2"
  then have "elementCount h2 = u32_minus (elementCount h) 1" "0 < elementCount h"
    using BinaryHeap_retrieve_Returns [OF r] BinaryHeap_remove_elementCount by auto
  then show "((T, h2), T, h) \<in> measure (\<lambda>(T, h). elementCount h)"
    using u32_minus_less [of "elementCount h"] by simp
qed

declare drain.simps [simp del]

text \<open>A sequence of \<^verbatim>\<open>insert\<close> and \<^verbatim>\<open>remove\<close> calls; it ends at the first call that does not return.\<close>

datatype 'a heap_op = Insert 'a | Remove

fun apply_ops :: "'a ElementType \<Rightarrow> 'a BinaryHeap \<Rightarrow> 'a heap_op list \<Rightarrow> (unit, 'a BinaryHeap) outcome" where
  "apply_ops T h [] = Returns () h"
| "apply_ops T h (Insert x # ops) =
     (case BinaryHeap_insert T x h of
        Returns b h' \<Rightarrow> apply_ops T h' ops
      | Throws e h' \<Rightarrow> Throws e h'
      | Undefined \<Rightarrow> Undefined)"
| "apply_ops T h (Remove # ops) =
     (case BinaryHeap_remove T h of
        Returns u h' \<Rightarrow> apply_ops T h' ops
      | Throws e h' \<Rightarrow> Throws e h'
      | Undefined \<Rightarrow> Undefined)"

text \<open>No \<^verbatim>\<open>remove\<close> of the sequence is applied to an empty heap (\<open>n\<close> elements at the start).\<close>

fun removes_nonempty :: "nat \<Rightarrow> 'a heap_op list \<Rightarrow> bool" where
  "removes_nonempty n [] \<longleftrightarrow> True"
| "removes_nonempty n (Insert x # ops) \<longleftrightarrow> removes_nonempty (n + 1) ops"
| "removes_nonempty n (Remove # ops) \<longleftrightarrow> 0 < n \<and> removes_nonempty (n - 1) ops"

text \<open>
  The calls of a sequence stay within the 32-bit unsigned arithmetic of the class (\<open>n\<close>
  elements and capacity \<open>c\<close> at the start): an \<^verbatim>\<open>insert\<close> that finds the heap full
  finds a capacity below \<open>2 ^ 31\<close>, so that \<^verbatim>\<open>capacity *= 2\<close> does not wrap around, and
  a \<^verbatim>\<open>remove\<close> finds at most \<open>2 ^ 31\<close> elements, so that the child indices
  \<^verbatim>\<open>2 * indexOfRoot + 1\<close> and \<^verbatim>\<open>2 * indexOfRoot + 2\<close> of \<^verbatim>\<open>reHeapDown\<close> do not wrap
  around.
\<close>

fun within_32_bits :: "nat \<Rightarrow> nat \<Rightarrow> 'a heap_op list \<Rightarrow> bool" where
  "within_32_bits n c [] \<longleftrightarrow> True"
| "within_32_bits n c (Insert x # ops) \<longleftrightarrow>
     (n = c \<longrightarrow> c < 2147483648) \<and> within_32_bits (n + 1) (if n = c then 2 * c else c) ops"
| "within_32_bits n c (Remove # ops) \<longleftrightarrow> n \<le> 2147483648 \<and> within_32_bits (n - 1) c ops"


text \<open>
  The elements the heap holds, the class invariant on the three members, and the heap
  property: no parent is greater than its child, over the first \<open>elementCount\<close> slots.
\<close>

definition heap_contents :: "'a BinaryHeap \<Rightarrow> 'a list" where
  "heap_contents h = take (elementCount h) (elements h)"

definition heap_wf :: "'a BinaryHeap \<Rightarrow> bool" where
  "heap_wf h \<longleftrightarrow>
     0 < capacity h \<and> capacity h < 4294967296 \<and> capacity h = length (elements h) \<and>
     elementCount h \<le> capacity h"

definition heap_order :: "'a ElementType \<Rightarrow> nat \<Rightarrow> 'a list \<Rightarrow> bool" where
  "heap_order T n es \<longleftrightarrow> (\<forall>i. 0 < i \<and> i < n \<longrightarrow> at_most T (es ! ((i - 1) div 2)) (es ! i))"

definition heap_property :: "'a ElementType \<Rightarrow> 'a BinaryHeap \<Rightarrow> bool" where
  "heap_property T h \<longleftrightarrow> heap_order T (elementCount h) (elements h)"

definition root_is_least :: "'a ElementType \<Rightarrow> 'a BinaryHeap \<Rightarrow> bool" where
  "root_is_least T h \<longleftrightarrow> (\<forall>i. i < elementCount h \<longrightarrow> at_most T (elements h ! 0) (elements h ! i))"

text \<open>
  The invariant of \<^verbatim>\<open>reHeapUp\<close> at index \<open>i\<close>: the heap order holds for every
  child but \<open>i\<close>, and the parent of \<open>i\<close> is not greater than the children of \<open>i\<close>.
\<close>

definition up_inv :: "'a ElementType \<Rightarrow> nat \<Rightarrow> 'a list \<Rightarrow> nat \<Rightarrow> bool" where
  "up_inv T n es i \<longleftrightarrow>
     (\<forall>j. 0 < j \<and> j < n \<and> j \<noteq> i \<longrightarrow> at_most T (es ! ((j - 1) div 2)) (es ! j)) \<and>
     (\<forall>j. 0 < i \<and> 0 < j \<and> j < n \<and> (j - 1) div 2 = i \<longrightarrow>
        at_most T (es ! ((i - 1) div 2)) (es ! j))"

text \<open>
  The invariant of \<^verbatim>\<open>reHeapDown\<close> at index \<open>r\<close>: the heap order holds for every
  child whose parent is not \<open>r\<close>, and the parent of \<open>r\<close> is not greater than the
  children of \<open>r\<close>.
\<close>

definition down_inv :: "'a ElementType \<Rightarrow> nat \<Rightarrow> 'a list \<Rightarrow> nat \<Rightarrow> bool" where
  "down_inv T n es r \<longleftrightarrow>
     (\<forall>j. 0 < j \<and> j < n \<and> (j - 1) div 2 \<noteq> r \<longrightarrow> at_most T (es ! ((j - 1) div 2)) (es ! j)) \<and>
     (\<forall>j. 0 < r \<and> 0 < j \<and> j < n \<and> (j - 1) div 2 = r \<longrightarrow>
        at_most T (es ! ((r - 1) div 2)) (es ! j))"

subsection \<open>PriorityQueue (PriorityQueue.h, PriorityQueue.cpp)\<close>

record 'a PriorityQueue =
  minheap :: "'a BinaryHeap"

definition PriorityQueue_new :: "'a ElementType \<Rightarrow> 'a PriorityQueue" where
  "PriorityQueue_new T = \<lparr>minheap = BinaryHeap_new T 2\<rparr>"

definition PriorityQueue_isEmpty :: "'a PriorityQueue \<Rightarrow> bool" where
  "PriorityQueue_isEmpty pq \<longleftrightarrow> BinaryHeap_getElementCount (minheap pq) = 0"

definition PriorityQueue_enqueue ::
  "'a ElementType \<Rightarrow> 'a \<Rightarrow> 'a PriorityQueue \<Rightarrow> (bool, 'a PriorityQueue) outcome" where
  "PriorityQueue_enqueue T newElement pq =
     on_member (\<lambda>h. pq\<lparr>minheap := h\<rparr>) (BinaryHeap_insert T newElement (minheap pq))"

definition PriorityQueue_dequeue ::
  "'a ElementType \<Rightarrow> 'a PriorityQueue \<Rightarrow> (unit, 'a PriorityQueue) outcome" where
  "PriorityQueue_dequeue T pq =
     (if PriorityQueue_isEmpty pq then Throws EmptyDataCollectionException pq
      else on_member (\<lambda>h. pq\<lparr>minheap := h\<rparr>) (BinaryHeap_remove T (minheap pq)))"

definition PriorityQueue_peek :: "'a PriorityQueue \<Rightarrow> ('a, 'a PriorityQueue) outcome" where
  "PriorityQueue_peek pq =
     (if PriorityQueue_isEmpty pq then Throws EmptyDataCollectionException pq
      else on_member (\<lambda>h. pq\<lparr>minheap := h\<rparr>) (BinaryHeap_retrieve (minheap pq)))"

subsection \<open>Queue (Queue.h, Queue.cpp)\<close>

text \<open>
  The nodes live in the free store: \<open>cells\<close> maps an address to the node allocated
  there, \<^verbatim>\<open>nullptr\<close> is \<open>None\<close>. \<^verbatim>\<open>new Node(newElement)\<close> takes the next address never
  handed out before (\<open>fresh\<close>), \<^verbatim>\<open>delete\<close> empties the cell. Following a null or
  dangling pointer is undefined behaviour, and so is an overflow of the \<^verbatim>\<open>int\<close>
  member \<open>size\<close>.
\<close>

type_synonym addr = nat

record 'a Node =
  data :: 'a
  next' :: "addr option"

record 'a Queue =
  size' :: int
  head :: "addr option"
  tail :: "addr option"
  cells :: "addr \<Rightarrow> 'a Node option"
  fresh :: addr

definition Queue_new :: "'a Queue" where
  "Queue_new = \<lparr>size' = 0, head = None, tail = None, cells = (\<lambda>a. None), fresh = 0\<rparr>"

definition Queue_isEmpty :: "'a Queue \<Rightarrow> bool" where
  "Queue_isEmpty q \<longleftrightarrow> size' q = 0"

definition Queue_enqueue :: "'a \<Rightarrow> 'a Queue \<Rightarrow> (bool, 'a Queue) outcome" where
  "Queue_enqueue newElement q =
     (let myNode = fresh q;
          q1 = q\<lparr>cells := (cells q)(myNode \<mapsto> \<lparr>data = newElement, next' = None\<rparr>),
                 fresh := myNode + 1\<rparr>
      in case (if Queue_isEmpty q1 then Some (q1\<lparr>head := Some myNode, tail := Some myNode\<rparr>)
               else (case tail q1 of
                       None \<Rightarrow> None
                     | Some t \<Rightarrow>
                         (case cells q1 t of
                            None \<Rightarrow> None
                          | Some nd \<Rightarrow>
                              Some (q1\<lparr>cells := (cells q1)(t \<mapsto> nd\<lparr>next' := Some myNode\<rparr>),
                                       tail := Some myNode\<rparr>)))) of
           None \<Rightarrow> Undefined
         | Some q2 \<Rightarrow>
             (case int_checked (size' q2 + 1) of
                None \<Rightarrow> Undefined
              | Some n \<Rightarrow> Returns True (q2\<lparr>size' := n\<rparr>)))"

definition Queue_dequeue :: "'a Queue \<Rightarrow> (unit, 'a Queue) outcome" where
  "Queue_dequeue q =
     (if Queue_isEmpty q then Throws EmptyDataCollectionException q
      else case head q of
        None \<Rightarrow> Undefined
      | Some temp \<Rightarrow>
          (case cells q temp of
             None \<Rightarrow> Undefined
           | Some nd \<Rightarrow>
               (case int_checked (size' q - 1) of
                  None \<Rightarrow> Undefined
                | Some n \<Rightarrow>
                    (let q1 = q\<lparr>head := next' nd, cells := (cells q)(temp := None), size' := n\<rparr>
                     in Returns () (if Queue_isEmpty q1 then q1\<lparr>tail := None\<rparr> else q1)))))"

definition Queue_peek :: "'a Queue \<Rightarrow> ('a, 'a Queue) outcome" where
  "Queue_peek q =
     (if Queue_isEmpty q then Throws EmptyDataCollectionException q
      else case head q of
        None \<Rightarrow> Undefined
      | Some a \<Rightarrow> (case cells q a of None \<Rightarrow> Undefined | Some nd \<Rightarrow> Returns (data nd) q))"

text \<open>
  Abstraction: the nodes at the addresses \<open>as\<close>, linked from \<open>p\<close> in this order and
  ending in \<^verbatim>\<open>nullptr\<close>, hold the elements \<open>xs\<close>. \<open>queue_rep\<close> adds the class
  invariant: \<open>size\<close> counts the nodes, \<open>tail\<close> is the last of them (null when there is
  none), and no node is shared.
\<close>

fun chain :: "(addr \<Rightarrow> 'a Node option) \<Rightarrow> addr option \<Rightarrow> addr list \<Rightarrow> 'a list \<Rightarrow> bool" where
  "chain c p [] xs \<longleftrightarrow> p = None \<and> xs = []"
| "chain c p (a # as) [] \<longleftrightarrow> False"
| "chain c p (a # as) (x # xs) \<longleftrightarrow>
     p = Some a \<and> (case c a of None \<Rightarrow> False | Some nd \<Rightarrow> data nd = x \<and> chain c (next' nd) as xs)"

definition queue_rep :: "'a Queue \<Rightarrow> addr list \<Rightarrow> 'a list \<Rightarrow> bool" where
  "queue_rep q as xs \<longleftrightarrow>
     chain (cells q) (head q) as xs \<and> distinct as \<and> size' q = int (length as) \<and>
     tail q = (if as = [] then None else Some (last as)) \<and> (\<forall>a \<in> set as. a < fresh q)"

definition queue_ok :: "'a Queue \<Rightarrow> 'a list \<Rightarrow> bool" where
  "queue_ok q xs \<longleftrightarrow> (\<exists>as. queue_rep q as xs) \<and> int (length xs) \<le> INT_MAX"



subsection \<open>The simulation (BankSimApp.cpp)\<close>

text \<open>Sequencing: the next call runs in the state the previous one returned.\<close>

definition then_do :: "('r, 's) outcome \<Rightarrow> ('r \<Rightarrow> 's \<Rightarrow> ('q, 's) outcome) \<Rightarrow> ('q, 's) outcome" where
  "then_do res f =
     (case res of
        Returns r s \<Rightarrow> f r s
      | Throws e s \<Rightarrow> Throws e s
      | Undefined \<Rightarrow> Undefined)"

text \<open>
  The local variables of \<^verbatim>\<open>main\<close>, which \<^verbatim>\<open>processArrival\<close> and \<^verbatim>\<open>processDeparture\<close>
  receive by reference. \<open>printed\<close> collects what \<^verbatim>\<open>outputEventProcessing\<close> writes:
  the kind and the time of each event processed.
\<close>

record Sim =
  bankLine :: "Event Queue"
  eventPriorityQueue :: "Event PriorityQueue"
  tellerAvailable :: bool
  simulationTime :: int
  customerCount :: int
  cumulativeWaitTime :: int
  printed :: "(string \<times> int) list"

definition on_eventPriorityQueue ::
  "Sim \<Rightarrow> ('r, Event PriorityQueue) outcome \<Rightarrow> ('r, Sim) outcome" where
  "on_eventPriorityQueue s res = on_member (\<lambda>pq. s\<lparr>eventPriorityQueue := pq\<rparr>) res"

definition on_bankLine :: "Sim \<Rightarrow> ('r, Event Queue) outcome \<Rightarrow> ('r, Sim) outcome" where
  "on_bankLine s res = on_member (\<lambda>q. s\<lparr>bankLine := q\<rparr>) res"

definition processArrival :: "Event \<Rightarrow> Sim \<Rightarrow> (unit, Sim) outcome" where
  "processArrival newEvent s =
     then_do (on_eventPriorityQueue s (PriorityQueue_dequeue Event_ops (eventPriorityQueue s)))
       (\<lambda>u s1.
          if Queue_isEmpty (bankLine s1) \<and> tellerAvailable s1
          then
            (case int_checked (simulationTime s1 + getLength newEvent) of
               None \<Rightarrow> Undefined
             | Some departureTime \<Rightarrow>
                 then_do
                   (on_eventPriorityQueue s1
                      (PriorityQueue_enqueue Event_ops (Event2 DEPARTURE departureTime)
                         (eventPriorityQueue s1)))
                   (\<lambda>b s2. Returns () (s2\<lparr>tellerAvailable := False\<rparr>)))
          else
            then_do (on_bankLine s1 (Queue_enqueue newEvent (bankLine s1)))
              (\<lambda>b s2. Returns () s2))"

definition processDeparture :: "Event \<Rightarrow> Sim \<Rightarrow> (unit, Sim) outcome" where
  "processDeparture newEvent s =
     then_do (on_eventPriorityQueue s (PriorityQueue_dequeue Event_ops (eventPriorityQueue s)))
       (\<lambda>u s1.
          if \<not> Queue_isEmpty (bankLine s1)
          then
            then_do (on_bankLine s1 (Queue_peek (bankLine s1)))
              (\<lambda>customer s2.
                 then_do (on_bankLine s2 (Queue_dequeue (bankLine s2)))
                   (\<lambda>u s3.
                      case int_checked (simulationTime s3 - getTime customer) of
                        None \<Rightarrow> Undefined
                      | Some waitTime \<Rightarrow>
                          (case int_checked (cumulativeWaitTime s3 + waitTime) of
                             None \<Rightarrow> Undefined
                           | Some sumOfWaits \<Rightarrow>
                               (case int_checked (simulationTime s3 + getLength customer) of
                                  None \<Rightarrow> Undefined
                                | Some departureTime \<Rightarrow>
                                    then_do
                                      (on_eventPriorityQueue (s3\<lparr>cumulativeWaitTime := sumOfWaits\<rparr>)
                                         (PriorityQueue_enqueue Event_ops
                                            (Event2 DEPARTURE departureTime)
                                            (eventPriorityQueue s3)))
                                      (\<lambda>b s4. Returns () s4)))))
          else Returns () (s1\<lparr>tellerAvailable := True\<rparr>))"

definition outputEventProcessing :: "Event \<Rightarrow> string \<Rightarrow> Sim \<Rightarrow> Sim" where
  "outputEventProcessing event kind s = s\<lparr>printed := printed s @ [(kind, getTime event)]\<rparr>"

text \<open>
  \<^verbatim>\<open>main\<close>: the initial values, the loop that reads the customers (the list holds the
  pairs that \<^verbatim>\<open>cin >> arriveTime >> processTime\<close> delivered), one iteration of the event
  loop, the event loop, and the final statistics. The event loop is a \<^verbatim>\<open>while\<close> whose
  end is not evident from its text: not returning is the value \<open>None\<close>. The average is
  computed in \<open>real\<close>, the rounding of \<^verbatim>\<open>float\<close> is not modelled; with no customer the
  division is by zero and there is no value.
\<close>

definition Sim_initial :: Sim where
  "Sim_initial =
     \<lparr>bankLine = Queue_new, eventPriorityQueue = PriorityQueue_new Event_ops,
      tellerAvailable = True, simulationTime = 0, customerCount = 0, cumulativeWaitTime = 0,
      printed = []\<rparr>"

fun read_customers :: "(int \<times> int) list \<Rightarrow> Sim \<Rightarrow> (unit, Sim) outcome" where
  "read_customers [] s = Returns () s"
| "read_customers ((arriveTime, processTime) # rest) s =
     then_do
       (on_eventPriorityQueue s
          (PriorityQueue_enqueue Event_ops (Event3 ARRIVAL arriveTime processTime)
             (eventPriorityQueue s)))
       (\<lambda>b s1.
          case int_checked (customerCount s1 + 1) of
            None \<Rightarrow> Undefined
          | Some n \<Rightarrow> read_customers rest (s1\<lparr>customerCount := n\<rparr>))"

definition loop_body :: "Sim \<Rightarrow> (unit, Sim) outcome" where
  "loop_body s =
     then_do (on_eventPriorityQueue s (PriorityQueue_peek (eventPriorityQueue s)))
       (\<lambda>newEvent s0.
          let s1 = s0\<lparr>simulationTime := getTime newEvent\<rparr>
          in if isArrival newEvent
             then processArrival newEvent (outputEventProcessing newEvent ''arrival'' s1)
             else processDeparture newEvent (outputEventProcessing newEvent ''departure'' s1))"

partial_function (option) event_loop :: "Sim \<Rightarrow> (unit, Sim) outcome option" where
  "event_loop s =
     (if \<not> PriorityQueue_isEmpty (eventPriorityQueue s)
      then (case loop_body s of
              Returns u s' \<Rightarrow> event_loop s'
            | Throws e s' \<Rightarrow> Some (Throws e s')
            | Undefined \<Rightarrow> Some Undefined)
      else Some (Returns () s))"

definition averageWaitTime :: "Sim \<Rightarrow> real option" where
  "averageWaitTime s =
     (if customerCount s = 0 then None
      else Some (real_of_int (cumulativeWaitTime s) / real_of_int (customerCount s)))"

definition main :: "(int \<times> int) list \<Rightarrow> (int \<times> real option, Sim) outcome option" where
  "main input =
     (case read_customers input Sim_initial of
        Returns u s \<Rightarrow>
          (case event_loop s of
             None \<Rightarrow> None
           | Some (Returns u s') \<Rightarrow> Some (Returns (customerCount s', averageWaitTime s') s')
           | Some (Throws e s') \<Rightarrow> Some (Throws e s')
           | Some Undefined \<Rightarrow> Some Undefined)
      | Throws e s \<Rightarrow> Some (Throws e s)
      | Undefined \<Rightarrow> Some Undefined)"

subsection \<open>Notions of the specification\<close>

text \<open>
  The elements a priority queue holds, and its class invariant as the simulation sees
  it: the heap is well formed and ordered, and its capacity, which starts at 2 and only
  doubles, is a power of two that fits 32 bits.
\<close>

definition pq_contents :: "'a PriorityQueue \<Rightarrow> 'a multiset" where
  "pq_contents pq = mset (heap_contents (minheap pq))"

definition pq_ok :: "'a ElementType \<Rightarrow> 'a PriorityQueue \<Rightarrow> bool" where
  "pq_ok T pq \<longleftrightarrow>
     heap_wf (minheap pq) \<and> heap_property T (minheap pq) \<and>
     (\<exists>k. k \<le> 31 \<and> capacity (minheap pq) = 2 ^ k)"

text \<open>
  The simulation seen abstractly: the multiset of pending events, the waiting line, the
  teller flag, the simulation time and the cumulative wait time. \<open>abstract_step\<close> is
  the transition system of the specification: the earliest pending event is processed,
  by one of the four rules.
\<close>

type_synonym view = "Event multiset \<times> Event list \<times> bool \<times> int \<times> int"

definition view :: "Sim \<Rightarrow> Event list \<Rightarrow> view" where
  "view s line =
     (pq_contents (eventPriorityQueue s), line, tellerAvailable s, simulationTime s,
      cumulativeWaitTime s)"

definition earliest :: "Event \<Rightarrow> Event multiset \<Rightarrow> bool" where
  "earliest e P \<longleftrightarrow> e \<in># P \<and> (\<forall>x \<in># P. time e \<le> time x)"

inductive abstract_step :: "view \<Rightarrow> view \<Rightarrow> bool" where
  serve: "earliest e P \<Longrightarrow> isArrival e \<Longrightarrow>
     abstract_step (P, [], True, t, w)
       (add_mset (Event2 DEPARTURE (time e + length' e)) (P - {#e#}), [], False, time e, w)"
| wait: "earliest e P \<Longrightarrow> isArrival e \<Longrightarrow> \<not> (line = [] \<and> a) \<Longrightarrow>
     abstract_step (P, line, a, t, w) (P - {#e#}, line @ [e], a, time e, w)"
| next_customer: "earliest e P \<Longrightarrow> \<not> isArrival e \<Longrightarrow>
     abstract_step (P, c # line, a, t, w)
       (add_mset (Event2 DEPARTURE (time e + length' c)) (P - {#e#}), line, a, time e,
        w + (time e - time c))"
| idle: "earliest e P \<Longrightarrow> \<not> isArrival e \<Longrightarrow>
     abstract_step (P, [], a, t, w) (P - {#e#}, [], True, time e, w)"

definition sim_ok :: "Sim \<Rightarrow> Event list \<Rightarrow> bool" where
  "sim_ok s line \<longleftrightarrow> pq_ok Event_ops (eventPriorityQueue s) \<and> queue_ok (bankLine s) line"

text \<open>
  A customer is in service when the departure event of that customer is pending. The
  states the event loop reaches from an input, one iteration at a time. The two
  invariants of the run: the teller flag against the line and the pending departure,
  and the times of the events against the simulation time.
\<close>

definition teller_inv :: "view \<Rightarrow> bool" where
  "teller_inv v =
     (case v of (P, line, a, t, w) \<Rightarrow>
        (a \<longrightarrow> line = [] \<and> (\<forall>e \<in># P. isArrival e)) \<and>
        (\<not> a \<longrightarrow> size {#e \<in># P. \<not> isArrival e#} = 1))"

definition time_inv :: "view \<Rightarrow> bool" where
  "time_inv v =
     (case v of (P, line, a, t, w) \<Rightarrow>
        (\<forall>e \<in># P. t \<le> time e \<and> 0 \<le> length' e) \<and>
        (\<forall>e \<in> set line. time e \<le> t \<and> 0 \<le> length' e))"

definition non_negative_input :: "(int \<times> int) list \<Rightarrow> bool" where
  "non_negative_input input \<longleftrightarrow>
     list_all (\<lambda>(arriveTime, processTime). 0 \<le> arriveTime \<and> 0 \<le> processTime) input"

definition in_service :: "Sim \<Rightarrow> bool" where
  "in_service s \<longleftrightarrow>
     (\<exists>e \<in> set (heap_contents (minheap (eventPriorityQueue s))). \<not> isArrival e)"

inductive reachable :: "(int \<times> int) list \<Rightarrow> Sim \<Rightarrow> bool" for input where
  start: "read_customers input Sim_initial = Returns () s \<Longrightarrow> reachable input s"
| step: "reachable input s \<Longrightarrow> \<not> PriorityQueue_isEmpty (eventPriorityQueue s) \<Longrightarrow>
     loop_body s = Returns () s' \<Longrightarrow> reachable input s'"

text \<open>
  The states of the scenario with the two customers \<open>(0, 10)\<close> and \<open>(2, 3)\<close>: after the
  input is read, and after each of the four events.
\<close>

definition scenario_read :: Sim where
  "scenario_read = \<lparr>bankLine = Queue_new,
     eventPriorityQueue = \<lparr>minheap = \<lparr>elements = [Event3 ARRIVAL 0 10, Event3 ARRIVAL 2 3],
        capacity = 2, elementCount = 2\<rparr>\<rparr>,
     tellerAvailable = True, simulationTime = 0, customerCount = 2, cumulativeWaitTime = 0,
     printed = []\<rparr>"

definition scenario_A_served :: Sim where
  "scenario_A_served = \<lparr>bankLine = Queue_new,
     eventPriorityQueue = \<lparr>minheap = \<lparr>elements = [Event3 ARRIVAL 2 3, Event2 DEPARTURE 10],
        capacity = 2, elementCount = 2\<rparr>\<rparr>,
     tellerAvailable = False, simulationTime = 0, customerCount = 2, cumulativeWaitTime = 0,
     printed = [(''arrival'', 0)]\<rparr>"

definition scenario_B_waits :: Sim where
  "scenario_B_waits = \<lparr>bankLine = \<lparr>size' = 1, head = Some 0, tail = Some 0,
        cells = (\<lambda>a. None)(0 \<mapsto> \<lparr>data = Event3 ARRIVAL 2 3, next' = None\<rparr>), fresh = 1\<rparr>,
     eventPriorityQueue = \<lparr>minheap = \<lparr>elements = [Event2 DEPARTURE 10, Event2 DEPARTURE 10],
        capacity = 2, elementCount = 1\<rparr>\<rparr>,
     tellerAvailable = False, simulationTime = 2, customerCount = 2, cumulativeWaitTime = 0,
     printed = [(''arrival'', 0), (''arrival'', 2)]\<rparr>"

definition scenario_B_served :: Sim where
  "scenario_B_served = \<lparr>bankLine = \<lparr>size' = 0, head = None, tail = None, cells = (\<lambda>a. None), fresh = 1\<rparr>,
     eventPriorityQueue = \<lparr>minheap = \<lparr>elements = [Event2 DEPARTURE 13, Event2 DEPARTURE 10],
        capacity = 2, elementCount = 1\<rparr>\<rparr>,
     tellerAvailable = False, simulationTime = 10, customerCount = 2, cumulativeWaitTime = 8,
     printed = [(''arrival'', 0), (''arrival'', 2), (''departure'', 10)]\<rparr>"

definition scenario_end :: Sim where
  "scenario_end = \<lparr>bankLine = \<lparr>size' = 0, head = None, tail = None, cells = (\<lambda>a. None), fresh = 1\<rparr>,
     eventPriorityQueue = \<lparr>minheap = \<lparr>elements = [Event2 DEPARTURE 13, Event2 DEPARTURE 10],
        capacity = 2, elementCount = 0\<rparr>\<rparr>,
     tellerAvailable = True, simulationTime = 13, customerCount = 2, cumulativeWaitTime = 8,
     printed = [(''arrival'', 0), (''arrival'', 2), (''departure'', 10), (''departure'', 13)]\<rparr>"

text \<open>
  The states of a run with the three customers \<open>(0, 5)\<close>, \<open>(3, 1)\<close> and \<open>(5, 1)\<close>, in
  which a departure and an arrival fall on the same time 5: after the input is read, and
  after each of the first three events.
\<close>

definition tie_read :: Sim where
  "tie_read = \<lparr>bankLine = Queue_new,
     eventPriorityQueue = \<lparr>minheap = \<lparr>elements =
        [Event3 ARRIVAL 0 5, Event3 ARRIVAL 3 1, Event3 ARRIVAL 5 1, Event0],
        capacity = 4, elementCount = 3\<rparr>\<rparr>,
     tellerAvailable = True, simulationTime = 0, customerCount = 3, cumulativeWaitTime = 0,
     printed = []\<rparr>"

definition tie_A_served :: Sim where
  "tie_A_served = \<lparr>bankLine = Queue_new,
     eventPriorityQueue = \<lparr>minheap = \<lparr>elements =
        [Event3 ARRIVAL 3 1, Event3 ARRIVAL 5 1, Event2 DEPARTURE 5, Event0],
        capacity = 4, elementCount = 3\<rparr>\<rparr>,
     tellerAvailable = False, simulationTime = 0, customerCount = 3, cumulativeWaitTime = 0,
     printed = [(''arrival'', 0)]\<rparr>"

definition tie_B_waits :: Sim where
  "tie_B_waits = \<lparr>bankLine = \<lparr>size' = 1, head = Some 0, tail = Some 0,
        cells = (\<lambda>a. None)(0 \<mapsto> \<lparr>data = Event3 ARRIVAL 3 1, next' = None\<rparr>), fresh = 1\<rparr>,
     eventPriorityQueue = \<lparr>minheap = \<lparr>elements =
        [Event2 DEPARTURE 5, Event3 ARRIVAL 5 1, Event2 DEPARTURE 5, Event0],
        capacity = 4, elementCount = 2\<rparr>\<rparr>,
     tellerAvailable = False, simulationTime = 3, customerCount = 3, cumulativeWaitTime = 0,
     printed = [(''arrival'', 0), (''arrival'', 3)]\<rparr>"

definition tie_departure_first :: Sim where
  "tie_departure_first =
     \<lparr>bankLine = \<lparr>size' = 0, head = None, tail = None, cells = (\<lambda>a. None), fresh = 1\<rparr>,
     eventPriorityQueue = \<lparr>minheap = \<lparr>elements =
        [Event3 ARRIVAL 5 1, Event2 DEPARTURE 6, Event2 DEPARTURE 5, Event0],
        capacity = 4, elementCount = 2\<rparr>\<rparr>,
     tellerAvailable = False, simulationTime = 5, customerCount = 3, cumulativeWaitTime = 2,
     printed = [(''arrival'', 0), (''arrival'', 3), (''departure'', 5)]\<rparr>"







section \<open>Properties of Event\<close>

lemma constructors_length_invariant:
  "length_invariant Event0" "length_invariant (Event2 k t)" "length_invariant (Event3 k t n)"
  by (simp_all add: length_invariant_def Event0_def Event2_def Event3_def)

lemma setTime_length_invariant: "length_invariant e \<Longrightarrow> length_invariant (setTime t e)"
  by (simp add: length_invariant_def setTime_def)

lemma setLength_length_invariant: "length_invariant (setLength n e)"
  by (simp add: length_invariant_def setLength_def)

lemma setLength_DEPARTURE: "type e = DEPARTURE \<Longrightarrow> getLength (setLength n e) = 0"
  by (simp add: getLength_def setLength_def)

lemma setType_ARRIVAL_length_invariant: "length_invariant (setType ARRIVAL e)"
  by (simp add: length_invariant_def setType_def)

lemma setType_DEPARTURE_length_invariant:
  "length_invariant (setType DEPARTURE e) \<longleftrightarrow> length' e = 0"
  by (simp add: length_invariant_def setType_def)

lemma Event_le_tie: "Event_le (Event3 ARRIVAL t n) (Event2 DEPARTURE t)"
  "\<not> Event_le (Event2 DEPARTURE t) (Event3 ARRIVAL t n)"
  by (simp_all add: Event_le_def Event3_def Event2_def getTime_def getType_def)

text \<open>
  Claim C3. Every setter is claimed to keep the invariant that a departure has service
  length 0. \<^verbatim>\<open>setType\<close> assigns the kind and leaves the length alone: an arrival of
  length 5 turned into a departure still has length 5, and \<^verbatim>\<open>getLength\<close> returns it.
\<close>

theorem C3_setType_keeps_length:
  "getType (Event3 ARRIVAL 0 5) = ARRIVAL \<and>
   getType (apply_setters (Event3 ARRIVAL 0 5) [SetType DEPARTURE]) = DEPARTURE \<and>
   getLength (apply_setters (Event3 ARRIVAL 0 5) [SetType DEPARTURE]) = 5"
  by (simp add: apply_setters_def setType_def Event3_def getType_def getLength_def)

text \<open>
  Claim C10. The default-constructed event is an arrival at time 0 with service length 0;
  it satisfies the invariant of the data model.
\<close>

theorem C10_default_event:
  "getType Event0 = ARRIVAL \<and> getTime Event0 = 0 \<and> getLength Event0 = 0 \<and>
   isArrival Event0 \<and> Event0 = Event3 ARRIVAL 0 0"
  by (simp add: Event0_def getType_def getTime_def getLength_def isArrival_def Event3_def)

section \<open>Properties of BinaryHeap\<close>

lemma strict_weak_order_Event: "strict_weak_order Event_ops"
  by (auto simp: strict_weak_order_def Event_ops_def Event_less_def Event_greater_def)

lemma at_most_refl: "strict_weak_order T \<Longrightarrow> at_most T a a"
  by (auto simp: strict_weak_order_def at_most_def)

lemma at_most_trans:
  "strict_weak_order T \<Longrightarrow> at_most T a b \<Longrightarrow> at_most T b c \<Longrightarrow> at_most T a c"
  unfolding strict_weak_order_def at_most_def by blast

lemma greater_at_most: "strict_weak_order T \<Longrightarrow> operator_greater T a b \<Longrightarrow> at_most T b a"
  unfolding strict_weak_order_def at_most_def by blast

lemma less_at_most: "strict_weak_order T \<Longrightarrow> operator_less T a b \<Longrightarrow> at_most T a b"
  unfolding strict_weak_order_def at_most_def by blast

lemma not_less_at_most: "strict_weak_order T \<Longrightarrow> \<not> operator_less T a b \<Longrightarrow> at_most T b a"
  unfolding strict_weak_order_def at_most_def by blast

lemma at_most_not_less: "strict_weak_order T \<Longrightarrow> at_most T a b \<Longrightarrow> \<not> operator_less T b a"
  unfolding strict_weak_order_def at_most_def by blast

lemma std_swap_nth:
  "i < length es \<Longrightarrow> j < length es \<Longrightarrow>
   std_swap es i j ! k = (if k = j then es ! i else if k = i then es ! j else es ! k)"
  by (auto simp: std_swap_def nth_list_update)

lemma length_std_swap: "length (std_swap es i j) = length es"
  by (simp add: std_swap_def)

lemma mset_take_std_swap:
  assumes "i < n" "j < n" "n \<le> length es"
  shows "mset (take n (std_swap es i j)) = mset (take n es)"
proof -
  have "take n (std_swap es i j) = (take n es)[i := take n es ! j, j := take n es ! i]"
    using assms by (simp add: std_swap_def take_update_swap)
  moreover have "mset ((take n es)[i := take n es ! j, j := take n es ! i]) = mset (take n es)"
    by (rule mset_swap) (use assms in simp_all)
  ultimately show ?thesis by simp
qed

lemma drop_std_swap: "i < n \<Longrightarrow> j < n \<Longrightarrow> drop n (std_swap es i j) = drop n es"
  by (simp add: std_swap_def)

lemma up_inv_step:
  assumes swo: "strict_weak_order T" and i: "0 < i" "i < n" "n \<le> length es"
    and inv: "up_inv T n es i" and g: "operator_greater T (es ! ((i - 1) div 2)) (es ! i)"
  shows "up_inv T n (std_swap es i ((i - 1) div 2)) ((i - 1) div 2)"
proof -
  define p where "p = (i - 1) div 2"
  define es' where "es' = std_swap es i p"
  have p: "p < i" using i by (simp add: p_def)
  have nth: "\<And>k. es' ! k = (if k = p then es ! i else if k = i then es ! p else es ! k)"
    using i p by (simp add: es'_def std_swap_nth)
  have old1: "\<And>j. 0 < j \<Longrightarrow> j < n \<Longrightarrow> j \<noteq> i \<Longrightarrow> at_most T (es ! ((j - 1) div 2)) (es ! j)"
    using inv by (simp add: up_inv_def)
  have old2: "\<And>j. 0 < j \<Longrightarrow> j < n \<Longrightarrow> (j - 1) div 2 = i \<Longrightarrow> at_most T (es ! p) (es ! j)"
    using inv i by (simp add: up_inv_def p_def)
  have ip: "at_most T (es ! i) (es ! p)"
    using greater_at_most [OF swo] g by (simp add: p_def)
  have part1: "at_most T (es' ! ((j - 1) div 2)) (es' ! j)" if j: "0 < j" "j < n" "j \<noteq> p" for j
  proof -
    consider (a) "j = i" | (b) "j \<noteq> i" "(j - 1) div 2 = p" | (c) "(j - 1) div 2 = i"
      | (d) "j \<noteq> i" "(j - 1) div 2 \<noteq> p" "(j - 1) div 2 \<noteq> i"
      by blast
    then show ?thesis
    proof cases
      case a
      then have "(j - 1) div 2 = p" by (simp add: p_def)
      then show ?thesis using a ip p by (simp add: nth)
    next
      case b
      have "at_most T (es ! p) (es ! j)" using old1 [OF j(1,2) b(1)] b(2) by simp
      with ip have "at_most T (es ! i) (es ! j)" by (rule at_most_trans [OF swo])
      then show ?thesis using b j by (simp add: nth)
    next
      case c
      then have "j \<noteq> i" using j by auto
      moreover have "at_most T (es ! p) (es ! j)" using old2 [OF j(1,2) c] .
      ultimately show ?thesis using c j p by (simp add: nth)
    next
      case d
      then show ?thesis using old1 [OF j(1,2) d(1)] j by (simp add: nth)
    qed
  qed
  have part2: "at_most T (es' ! ((p - 1) div 2)) (es' ! j)"
    if j: "0 < p" "0 < j" "j < n" "(j - 1) div 2 = p" for j
  proof -
    have pp: "(p - 1) div 2 < p" using j by simp
    have gp: "at_most T (es ! ((p - 1) div 2)) (es ! p)"
      using old1 [of p] j p i by simp
    show ?thesis
    proof (cases "j = i")
      case True
      then show ?thesis using gp pp p by (simp add: nth)
    next
      case False
      have "at_most T (es ! p) (es ! j)" using old1 [OF j(2,3) False] j(4) by simp
      with gp have "at_most T (es ! ((p - 1) div 2)) (es ! j)" by (rule at_most_trans [OF swo])
      moreover have "j \<noteq> p" using j by auto
      ultimately show ?thesis using False pp p by (simp add: nth)
    qed
  qed
  show ?thesis
    unfolding up_inv_def p_def [symmetric] es'_def [symmetric]
    using part1 part2 by blast
qed

lemma length_reHeapUp: "length (reHeapUp T es i) = length es"
proof (induction T es i rule: reHeapUp.induct)
  case (1 T es i)
  show ?case
    using "1.IH" by (subst reHeapUp.simps) (simp add: Let_def length_std_swap)
qed

lemma mset_take_reHeapUp:
  "i < n \<Longrightarrow> n \<le> length es \<Longrightarrow> mset (take n (reHeapUp T es i)) = mset (take n es)"
proof (induction T es i rule: reHeapUp.induct)
  case (1 T es i)
  define p where "p = u32_minus i 1 div 2"
  show ?case
  proof (cases "0 < i \<and> operator_greater T (es ! p) (es ! i)")
    case True
    then have p: "p < i" using indexOfParent_less [of i] by (simp add: p_def)
    have "mset (take n (reHeapUp T (std_swap es i p) p)) = mset (take n (std_swap es i p))"
      using "1.IH" [OF p_def True] p "1.prems" by (simp add: length_std_swap)
    also have "\<dots> = mset (take n es)"
      using p "1.prems" by (simp add: mset_take_std_swap)
    finally show ?thesis
      using True by (subst reHeapUp.simps) (simp add: Let_def p_def)
  next
    case False
    then show ?thesis by (subst reHeapUp.simps) (auto simp: Let_def p_def)
  qed
qed

lemma drop_reHeapUp:
  "i < n \<Longrightarrow> drop n (reHeapUp T es i) = drop n es"
proof (induction T es i rule: reHeapUp.induct)
  case (1 T es i)
  define p where "p = u32_minus i 1 div 2"
  show ?case
  proof (cases "0 < i \<and> operator_greater T (es ! p) (es ! i)")
    case True
    then have p: "p < i" using indexOfParent_less [of i] by (simp add: p_def)
    have "drop n (reHeapUp T (std_swap es i p) p) = drop n (std_swap es i p)"
      using "1.IH" [OF p_def True] p "1.prems" by simp
    also have "\<dots> = drop n es"
      using p "1.prems" by (simp add: drop_std_swap)
    finally show ?thesis
      using True by (subst reHeapUp.simps) (simp add: Let_def p_def)
  next
    case False
    then show ?thesis by (subst reHeapUp.simps) (auto simp: Let_def p_def)
  qed
qed

lemma heap_order_reHeapUp:
  "strict_weak_order T \<Longrightarrow> i < n \<Longrightarrow> n \<le> length es \<Longrightarrow> n \<le> 4294967296 \<Longrightarrow>
   up_inv T n es i \<Longrightarrow> heap_order T n (reHeapUp T es i)"
proof (induction T es i rule: reHeapUp.induct)
  case (1 T es i)
  define p where "p = u32_minus i 1 div 2"
  show ?case
  proof (cases "0 < i \<and> operator_greater T (es ! p) (es ! i)")
    case True
    then have p: "p < i" using indexOfParent_less [of i] by (simp add: p_def)
    have peq: "p = (i - 1) div 2"
      using True "1.prems" by (simp add: p_def u32_minus_Suc0)
    have "up_inv T n (std_swap es i p) p"
      unfolding peq using "1.prems" True by (intro up_inv_step) (simp_all add: peq)
    then have "heap_order T n (reHeapUp T (std_swap es i p) p)"
      using "1.IH" [OF p_def True] p "1.prems" by (simp add: length_std_swap)
    then show ?thesis
      using True by (subst reHeapUp.simps) (simp add: Let_def p_def)
  next
    case False
    have "at_most T (es ! ((j - 1) div 2)) (es ! j)" if j: "0 < j" "j < n" for j
    proof (cases "j = i")
      case True
      then have "p = (j - 1) div 2"
        using j "1.prems" by (simp add: p_def u32_minus_Suc0)
      then show ?thesis using False True j by (simp add: at_most_def)
    next
      case False
      then show ?thesis using "1.prems"(5) j by (simp add: up_inv_def)
    qed
    then have "heap_order T n es" by (simp add: heap_order_def)
    then show ?thesis using False by (subst reHeapUp.simps) (auto simp: Let_def p_def)
  qed
qed

lemma down_inv_step:
  assumes swo: "strict_weak_order T" and r: "r < m" "m < n" "n \<le> length es"
    and m: "(m - 1) div 2 = r"
    and inv: "down_inv T n es r" and l: "operator_less T (es ! m) (es ! r)"
    and sib: "\<And>s. 0 < s \<Longrightarrow> s < n \<Longrightarrow> (s - 1) div 2 = r \<Longrightarrow> s \<noteq> m \<Longrightarrow> at_most T (es ! m) (es ! s)"
  shows "down_inv T n (std_swap es r m) m"
proof -
  define es' where "es' = std_swap es r m"
  have nth: "\<And>k. es' ! k = (if k = m then es ! r else if k = r then es ! m else es ! k)"
    using r by (simp add: es'_def std_swap_nth)
  have old1: "\<And>j. 0 < j \<Longrightarrow> j < n \<Longrightarrow> (j - 1) div 2 \<noteq> r \<Longrightarrow>
      at_most T (es ! ((j - 1) div 2)) (es ! j)"
    using inv by (simp add: down_inv_def)
  have old2: "\<And>j. 0 < r \<Longrightarrow> 0 < j \<Longrightarrow> j < n \<Longrightarrow> (j - 1) div 2 = r \<Longrightarrow>
      at_most T (es ! ((r - 1) div 2)) (es ! j)"
    using inv by (simp add: down_inv_def)
  have mr: "at_most T (es ! m) (es ! r)" using less_at_most [OF swo l] .
  have part1: "at_most T (es' ! ((j - 1) div 2)) (es' ! j)"
    if j: "0 < j" "j < n" "(j - 1) div 2 \<noteq> m" for j
  proof -
    consider (a) "j = m" | (b) "j \<noteq> m" "(j - 1) div 2 = r" | (c) "j = r"
      | (d) "j \<noteq> m" "j \<noteq> r" "(j - 1) div 2 \<noteq> r"
      by blast
    then show ?thesis
    proof cases
      case a
      then show ?thesis using mr m r by (simp add: nth)
    next
      case b
      then have "j \<noteq> r" using j by auto
      moreover have "at_most T (es ! m) (es ! j)" using sib [OF j(1,2) b(2,1)] .
      ultimately show ?thesis using b r by (simp add: nth)
    next
      case c
      then have g: "(j - 1) div 2 < r" using j by simp
      have "at_most T (es ! ((r - 1) div 2)) (es ! m)"
        using old2 [of m] c j r m by simp
      then show ?thesis using c g r by (simp add: nth)
    next
      case d
      then show ?thesis using old1 [OF j(1,2) d(3)] j by (simp add: nth)
    qed
  qed
  have part2: "at_most T (es' ! ((m - 1) div 2)) (es' ! j)"
    if j: "0 < j" "j < n" "(j - 1) div 2 = m" for j
  proof -
    have "m < j" using j by auto
    moreover have "at_most T (es ! m) (es ! j)"
      using old1 [OF j(1,2)] j(3) r by simp
    ultimately show ?thesis using r m by (simp add: nth)
  qed
  show ?thesis
    unfolding down_inv_def es'_def [symmetric]
    using part1 part2 by blast
qed

lemma heap_order_from_down_inv:
  assumes swo: "strict_weak_order T" and inv: "down_inv T n es r"
    and kids: "\<And>j. 0 < j \<Longrightarrow> j < n \<Longrightarrow> (j - 1) div 2 = r \<Longrightarrow> \<not> operator_less T (es ! j) (es ! r)"
  shows "heap_order T n es"
proof -
  have "at_most T (es ! ((j - 1) div 2)) (es ! j)" if j: "0 < j" "j < n" for j
  proof (cases "(j - 1) div 2 = r")
    case True
    then show ?thesis using not_less_at_most [OF swo kids [OF j True]] by simp
  next
    case False
    then show ?thesis using inv j by (simp add: down_inv_def)
  qed
  then show ?thesis by (simp add: heap_order_def)
qed

lemma reHeapDown_props:
  assumes swo: "strict_weak_order T"
  shows "r < n \<Longrightarrow> n \<le> length es \<Longrightarrow> n \<le> 2147483647 \<Longrightarrow> down_inv T n es r \<Longrightarrow>
    \<exists>es'. reHeapDown T n es r = Some es' \<and> heap_order T n es' \<and> length es' = length es \<and>
      mset (take n es') = mset (take n es) \<and> drop n es' = drop n es"
proof (induction "n - r" arbitrary: es r rule: less_induct)
  case less
  define l where "l = 2 * r + 1"
  define rt where "rt = 2 * r + 2"
  define c1 where "c1 \<longleftrightarrow> l < n \<and> operator_less T (es ! l) (es ! r)"
  define m1 where "m1 = (if c1 then l else r)"
  define c2 where "c2 \<longleftrightarrow> rt < n \<and> operator_less T (es ! rt) (es ! m1)"
  define m where "m = (if c2 then rt else m1)"
  have ul: "u32 (2 * r + 1) = l" and ur: "u32 (2 * r + 2) = rt"
    using less.prems by (simp_all add: l_def rt_def u32_id)
  have unfold: "reHeapDown T n es r =
      (if m \<noteq> r then reHeapDown T n (std_swap es r m) m else Some es)"
    by (subst reHeapDown.simps)
      (simp only: ul ur Let_def m_def c2_def m1_def c1_def)
  have child: "(j - 1) div 2 = r \<longleftrightarrow> j = l \<or> j = rt" if "0 < j" for j
    using that unfolding l_def rt_def by presburger
  have lrt: "r < l" "r < rt" "l < rt" by (simp_all add: l_def rt_def)
  have trans: "\<And>a b c. operator_less T a b \<Longrightarrow> operator_less T b c \<Longrightarrow> operator_less T a c"
    using swo unfolding strict_weak_order_def by blast
  consider (stop) "\<not> c1" "\<not> c2" | (right) "c2" | (left) "c1" "\<not> c2" by blast
  then show ?case
  proof cases
    case stop
    then have mr: "m = r" "m1 = r" by (simp_all add: m_def m1_def)
    have "\<not> operator_less T (es ! j) (es ! r)" if j: "0 < j" "j < n" "(j - 1) div 2 = r" for j
    proof -
      have "j = l \<or> j = rt" using child j by simp
      then show ?thesis
      proof
        assume "j = l"
        then show ?thesis using stop(1) j by (simp add: c1_def)
      next
        assume "j = rt"
        then show ?thesis using stop(2) j mr by (simp add: c2_def)
      qed
    qed
    then have "heap_order T n es"
      using heap_order_from_down_inv [OF swo less.prems(4)] by blast
    then show ?thesis using mr unfold by simp
  next
    case right
    then have m: "m = rt" by (simp add: m_def)
    have mn: "m < n" and a: "operator_less T (es ! rt) (es ! m1)" using right m by (simp_all add: c2_def)
    have rm: "r < m" using m lrt by simp
    have pm: "(m - 1) div 2 = r" using child [of m] m rm by simp
    have lm: "operator_less T (es ! m) (es ! r)"
    proof (cases c1)
      case True
      then have "m1 = l" "operator_less T (es ! l) (es ! r)" by (simp_all add: m1_def c1_def)
      then show ?thesis using a m trans by blast
    next
      case False
      then show ?thesis using a m by (simp add: m1_def)
    qed
    have sib: "at_most T (es ! m) (es ! s)"
      if s: "0 < s" "s < n" "(s - 1) div 2 = r" "s \<noteq> m" for s
    proof -
      have sl: "s = l" using child [of s] s m by simp
      show ?thesis
      proof (cases c1)
        case True
        then show ?thesis using a m sl less_at_most [OF swo] by (simp add: m1_def)
      next
        case False
        then have "\<not> operator_less T (es ! l) (es ! r)" using s sl by (simp add: c1_def)
        then have "at_most T (es ! r) (es ! l)" by (rule not_less_at_most [OF swo])
        moreover have "at_most T (es ! rt) (es ! r)"
          using a False less_at_most [OF swo] by (simp add: m1_def)
        ultimately have "at_most T (es ! rt) (es ! l)" using at_most_trans [OF swo] by blast
        then show ?thesis using m sl by simp
      qed
    qed
    have inv': "down_inv T n (std_swap es r m) m"
      using down_inv_step [OF swo rm mn less.prems(2) pm less.prems(4) lm sib] .
    have "n - m < n - r" using rm mn by simp
    from less.hyps [OF this mn _ less.prems(3) inv']
    obtain es' where es': "reHeapDown T n (std_swap es r m) m = Some es'" "heap_order T n es'"
      "length es' = length (std_swap es r m)"
      "mset (take n es') = mset (take n (std_swap es r m))"
      "drop n es' = drop n (std_swap es r m)"
      using less.prems(2) by (auto simp: length_std_swap)
    have "mset (take n es') = mset (take n es)"
      using es'(4) mset_take_std_swap [of r n m es] less.prems mn by simp
    moreover have "drop n es' = drop n es"
      using es'(5) drop_std_swap [of r n m es] less.prems mn by simp
    ultimately show ?thesis
      using rm unfold es' by (simp add: length_std_swap)
  next
    case left
    then have m: "m = l" "m1 = l" by (simp_all add: m_def m1_def)
    have mn: "m < n" and lm: "operator_less T (es ! m) (es ! r)" using left m by (simp_all add: c1_def)
    have rm: "r < m" using m lrt by simp
    have pm: "(m - 1) div 2 = r" using child [of m] m rm by simp
    have sib: "at_most T (es ! m) (es ! s)"
      if s: "0 < s" "s < n" "(s - 1) div 2 = r" "s \<noteq> m" for s
    proof -
      have srt: "s = rt" using child [of s] s m by simp
      then have "\<not> operator_less T (es ! rt) (es ! l)" using left(2) s m by (simp add: c2_def)
      then show ?thesis using m srt not_less_at_most [OF swo] by simp
    qed
    have inv': "down_inv T n (std_swap es r m) m"
      using down_inv_step [OF swo rm mn less.prems(2) pm less.prems(4) lm sib] .
    have "n - m < n - r" using rm mn by simp
    from less.hyps [OF this mn _ less.prems(3) inv']
    obtain es' where es': "reHeapDown T n (std_swap es r m) m = Some es'" "heap_order T n es'"
      "length es' = length (std_swap es r m)"
      "mset (take n es') = mset (take n (std_swap es r m))"
      "drop n es' = drop n (std_swap es r m)"
      using less.prems(2) by (auto simp: length_std_swap)
    have "mset (take n es') = mset (take n es)"
      using es'(4) mset_take_std_swap [of r n m es] less.prems mn by simp
    moreover have "drop n es' = drop n es"
      using es'(5) drop_std_swap [of r n m es] less.prems mn by simp
    ultimately show ?thesis
      using rm unfold es' by (simp add: length_std_swap)
  qed
qed

lemma heap_order_root:
  assumes swo: "strict_weak_order T" and ho: "heap_order T n es"
  shows "i < n \<Longrightarrow> at_most T (es ! 0) (es ! i)"
proof (induction i rule: less_induct)
  case (less i)
  show ?case
  proof (cases "i = 0")
    case True
    then show ?thesis using at_most_refl [OF swo] by simp
  next
    case False
    then have "(i - 1) div 2 < i" by simp
    moreover from this have "(i - 1) div 2 < n" using less.prems by simp
    ultimately have "at_most T (es ! 0) (es ! ((i - 1) div 2))" by (rule less.IH)
    moreover have "at_most T (es ! ((i - 1) div 2)) (es ! i)"
      using ho False less.prems by (simp add: heap_order_def)
    ultimately show ?thesis by (rule at_most_trans [OF swo])
  qed
qed

lemma heap_wf_new: "0 < cap \<Longrightarrow> cap < 4294967296 \<Longrightarrow> heap_wf (BinaryHeap_new T cap)"
  by (simp add: heap_wf_def BinaryHeap_new_def)

lemma heap_property_new: "heap_property T (BinaryHeap_new T cap)"
  by (simp add: heap_property_def heap_order_def BinaryHeap_new_def)

lemma heap_contents_new: "heap_contents (BinaryHeap_new T cap) = []"
  by (simp add: heap_contents_def BinaryHeap_new_def)

lemma expandHeap_full:
  assumes wf: "heap_wf h" and full: "elementCount h = capacity h" and small: "capacity h < 2147483648"
  shows "expandHeap T h = Returns ()
     (h\<lparr>elements := elements h @ replicate (capacity h) (default_constructed T),
        capacity := 2 * capacity h\<rparr>)"
proof -
  have c: "u32 (capacity h * 2) = 2 * capacity h"
    using small by (simp add: u32_id)
  have "drop (capacity h) (replicate (2 * capacity h) (default_constructed T)) =
      replicate (capacity h) (default_constructed T)"
    by simp
  then show ?thesis
    unfolding expandHeap_def Let_def c using wf full by (simp add: heap_wf_def)
qed

text \<open>
  A heap constructed with capacity 0 cannot grow: twice 0 is 0, and the first
  \<^verbatim>\<open>insert\<close> writes past the end of an array of length 0.
\<close>

lemma BinaryHeap_insert_capacity_0: "BinaryHeap_insert T x (BinaryHeap_new T 0) = Undefined"
  by (simp add: BinaryHeap_insert_def expandHeap_def BinaryHeap_new_def u32_def)

lemma up_inv_append:
  assumes "heap_order T n es" "n < length es"
  shows "up_inv T (Suc n) (es[n := x]) n"
proof -
  have "at_most T (es[n := x] ! ((j - 1) div 2)) (es[n := x] ! j)"
    if j: "0 < j" "j < Suc n" "j \<noteq> n" for j
  proof -
    have "j < n" using j by simp
    moreover from this have "(j - 1) div 2 < n" by simp
    ultimately show ?thesis using assms j by (simp add: heap_order_def)
  qed
  moreover have "\<not> (0 < j \<and> j < Suc n \<and> (j - 1) div 2 = n)" for j
    by auto
  ultimately show ?thesis unfolding up_inv_def by blast
qed

lemma BinaryHeap_insert_grow:
  assumes swo: "strict_weak_order T" and wf: "heap_wf h" and hp: "heap_property T h"
    and fits: "elementCount h = capacity h \<Longrightarrow> capacity h < 2147483648"
  shows "\<exists>h'. BinaryHeap_insert T x h = Returns True h' \<and> heap_wf h' \<and> heap_property T h' \<and>
      elementCount h' = elementCount h + 1 \<and>
      capacity h' = (if elementCount h = capacity h then 2 * capacity h else capacity h) \<and>
      mset (heap_contents h') = add_mset x (mset (heap_contents h))"
proof -
  define h1 where "h1 = (if elementCount h = capacity h
     then h\<lparr>elements := elements h @ replicate (capacity h) (default_constructed T),
            capacity := 2 * capacity h\<rparr> else h)"
  define n where "n = elementCount h"
  have e: "(if elementCount h = capacity h then expandHeap T h else Returns () h) = Returns () h1"
    using expandHeap_full [OF wf] fits by (simp add: h1_def)
  have n1: "elementCount h1 = n" by (simp add: h1_def n_def)
  have wf1: "heap_wf h1" "n < length (elements h1)"
    using wf fits by (auto simp: h1_def heap_wf_def n_def)
  have n32: "Suc n < 4294967296"
    using wf1 by (simp add: heap_wf_def)
  have tk: "take n (elements h1) = take n (elements h)"
    using wf by (simp add: h1_def n_def heap_wf_def)
  have ho1: "heap_order T n (elements h1)"
  proof -
    have "elements h1 ! j = elements h ! j" if "j < n" for j
      using that wf by (simp add: h1_def n_def heap_wf_def nth_append)
    moreover have "(j - 1) div 2 < n" if "j < n" "0 < j" for j using that by simp
    ultimately show ?thesis using hp by (simp add: heap_property_def heap_order_def n_def)
  qed
  define es where "es = reHeapUp T ((elements h1)[n := x]) n"
  define h' where "h' = h1\<lparr>elements := es, elementCount := u32 (n + 1)\<rparr>"
  have res: "BinaryHeap_insert T x h = Returns True h'"
    using wf1 by (simp add: BinaryHeap_insert_def e n1 h'_def es_def)
  have un: "u32 (Suc n) = Suc n" using n32 by (simp add: u32_id)
  have len: "length es = length (elements h1)" by (simp add: es_def length_reHeapUp)
  have ord: "heap_order T (Suc n) es"
    unfolding es_def using wf1 n32
    by (intro heap_order_reHeapUp [OF swo] up_inv_append [OF ho1]) simp_all
  have "mset (take (Suc n) es) = mset (take (Suc n) ((elements h1)[n := x]))"
    unfolding es_def using wf1 by (intro mset_take_reHeapUp) simp_all
  also have "take (Suc n) ((elements h1)[n := x]) = take n (elements h1) @ [x]"
    using wf1 by (simp add: take_Suc_conv_app_nth)
  finally have ms: "mset (take (Suc n) es) = add_mset x (mset (take n (elements h)))"
    by (simp add: tk)
  have "heap_wf h'" using wf1 len by (auto simp: h'_def heap_wf_def un)
  moreover have "heap_property T h'" using ord by (simp add: h'_def heap_property_def un)
  moreover have "elementCount h' = elementCount h + 1" using un by (simp add: h'_def n_def)
  moreover have "capacity h' = (if elementCount h = capacity h then 2 * capacity h else capacity h)"
    by (simp add: h'_def h1_def)
  moreover have "mset (heap_contents h') = add_mset x (mset (heap_contents h))"
    using ms un by (simp add: heap_contents_def h'_def n_def)
  ultimately show ?thesis using res by blast
qed

lemma BinaryHeap_insert_spec:
  assumes swo: "strict_weak_order T" and wf: "heap_wf h" and hp: "heap_property T h"
    and small: "elementCount h < 2147483648"
  shows "\<exists>h'. BinaryHeap_insert T x h = Returns True h' \<and> heap_wf h' \<and> heap_property T h' \<and>
      elementCount h' = elementCount h + 1 \<and>
      capacity h' = (if elementCount h = capacity h then 2 * capacity h else capacity h) \<and>
      mset (heap_contents h') = add_mset x (mset (heap_contents h))"
  using small by (intro BinaryHeap_insert_grow [OF swo wf hp]) simp

text \<open>
  At \<open>2 ^ 31\<close> elements in a full heap the doubled capacity wraps around to 0, and
  \<^verbatim>\<open>expandHeap\<close> copies the elements into an array of length 0.
\<close>

lemma BinaryHeap_insert_overflow:
  assumes "elementCount h = 2147483648" "capacity h = 2147483648"
  shows "BinaryHeap_insert T x h = Undefined"
proof -
  have "u32 (capacity h * 2) = 0" using assms(2) by (simp add: u32_def)
  then have "expandHeap T h = Undefined"
    using assms(1) by (simp add: expandHeap_def Let_def)
  then show ?thesis using assms by (simp add: BinaryHeap_insert_def)
qed

lemma BinaryHeap_remove_spec:
  assumes swo: "strict_weak_order T" and wf: "heap_wf h" and hp: "heap_property T h"
    and ne: "0 < elementCount h" and small: "elementCount h \<le> 2147483648"
  shows "\<exists>h'. BinaryHeap_remove T h = Returns () h' \<and> heap_wf h' \<and> heap_property T h' \<and>
      elementCount h' = elementCount h - 1 \<and> capacity h' = capacity h \<and>
      mset (heap_contents h') = mset (heap_contents h) - {#elements h ! 0#}"
proof -
  define n where "n = elementCount h - 1"
  define es1 where "es1 = (elements h)[0 := elements h ! n]"
  have un: "u32_minus (elementCount h) 1 = n"
    using ne small u32_minus_1 [of "elementCount h"] by (simp add: n_def)
  have len0: "elementCount h \<le> length (elements h)"
    using wf by (simp add: heap_wf_def)
  have cnt: "elementCount h = Suc n" using ne by (simp add: n_def)
  have len: "Suc n \<le> length (elements h)"
    using wf cnt by (simp add: heap_wf_def)
  have split: "take (Suc n) (elements h) = take n (elements h) @ [elements h ! n]"
    using len by (simp add: take_Suc_conv_app_nth)
  show ?thesis
  proof (cases "0 < n")
    case True
    have inv: "down_inv T n es1 0"
    proof -
      have "at_most T (es1 ! ((j - 1) div 2)) (es1 ! j)"
        if j: "0 < j" "j < n" "(j - 1) div 2 \<noteq> 0" for j
        using hp j len cnt by (simp add: heap_property_def heap_order_def es1_def)
      then show ?thesis by (simp add: down_inv_def)
    qed
    have "n \<le> length es1" "n \<le> 2147483647" using len small cnt by (simp_all add: es1_def)
    from reHeapDown_props [OF swo True this inv]
    obtain es' where es': "reHeapDown T n es1 0 = Some es'" "heap_order T n es'"
      "length es' = length es1" "mset (take n es') = mset (take n es1)"
      by blast
    define h' where "h' = h\<lparr>elements := es', elementCount := n\<rparr>"
    have res: "BinaryHeap_remove T h = Returns () h'"
      unfolding BinaryHeap_remove_def Let_def un n_def [symmetric] es1_def [symmetric]
      using ne len0 True es'(1) by (simp add: h'_def)
    have "take n es1 = (take n (elements h))[0 := elements h ! n]"
      by (simp add: es1_def take_update_swap)
    then have "mset (take n es1) =
        add_mset (elements h ! n) (mset (take n (elements h)) - {#elements h ! 0#})"
      using True len by (simp add: mset_update)
    moreover have "elements h ! 0 \<in># mset (take n (elements h))"
      using True len by (metis Suc_leD in_set_conv_nth length_take less_or_eq_imp_le min.absorb2
          nth_take set_mset_mset)
    ultimately have "mset (take n es') = mset (take (Suc n) (elements h)) - {#elements h ! 0#}"
      using es'(4) by (simp add: split)
    then have "mset (heap_contents h') = mset (heap_contents h) - {#elements h ! 0#}"
      by (simp add: heap_contents_def h'_def cnt)
    moreover have "heap_wf h'" using wf es'(3) len by (auto simp: h'_def heap_wf_def es1_def)
    moreover have "heap_property T h'" using es'(2) by (simp add: h'_def heap_property_def)
    moreover have "elementCount h' = elementCount h - 1" "capacity h' = capacity h"
      by (simp_all add: h'_def cnt)
    ultimately show ?thesis using res by blast
  next
    case False
    define h' where "h' = h\<lparr>elements := es1, elementCount := n\<rparr>"
    have res: "BinaryHeap_remove T h = Returns () h'"
      unfolding BinaryHeap_remove_def Let_def un n_def [symmetric] es1_def [symmetric]
      using ne len0 False by (simp add: h'_def)
    have "heap_wf h'" using wf False by (auto simp: h'_def heap_wf_def es1_def)
    moreover have "heap_property T h'"
      using False by (simp add: h'_def heap_property_def heap_order_def)
    moreover have "elementCount h' = elementCount h - 1" "capacity h' = capacity h"
      by (simp_all add: h'_def cnt)
    moreover have "mset (heap_contents h') = mset (heap_contents h) - {#elements h ! 0#}"
      using False split by (simp add: heap_contents_def h'_def cnt)
    ultimately show ?thesis using res by blast
  qed
qed

lemma heap_property_root_is_least:
  "strict_weak_order T \<Longrightarrow> heap_property T h \<Longrightarrow> root_is_least T h"
  unfolding root_is_least_def heap_property_def using heap_order_root by blast

lemma apply_ops_within:
  assumes swo: "strict_weak_order T"
  shows "heap_wf h \<Longrightarrow> heap_property T h \<Longrightarrow> removes_nonempty (elementCount h) ops \<Longrightarrow>
    within_32_bits (elementCount h) (capacity h) ops \<Longrightarrow>
    \<exists>h'. apply_ops T h ops = Returns () h' \<and> heap_wf h' \<and> heap_property T h'"
proof (induction ops arbitrary: h)
  case Nil
  then show ?case by simp
next
  case (Cons op ops)
  show ?case
  proof (cases op)
    case (Insert x)
    have "elementCount h = capacity h \<Longrightarrow> capacity h < 2147483648"
      using Cons.prems(4) Insert by simp
    from BinaryHeap_insert_grow [OF swo Cons.prems(1,2) this, of x]
    obtain h1 where h1: "BinaryHeap_insert T x h = Returns True h1" "heap_wf h1"
      "heap_property T h1" "elementCount h1 = elementCount h + 1"
      "capacity h1 = (if elementCount h = capacity h then 2 * capacity h else capacity h)"
      by auto
    have "\<exists>h'. apply_ops T h1 ops = Returns () h' \<and> heap_wf h' \<and> heap_property T h'"
      using Cons.prems Insert h1 by (intro Cons.IH) simp_all
    then show ?thesis using h1 Insert by auto
  next
    case Remove
    have ne: "0 < elementCount h" using Cons.prems(3) Remove by simp
    have small: "elementCount h \<le> 2147483648" using Cons.prems(4) Remove by simp
    from BinaryHeap_remove_spec [OF swo Cons.prems(1,2) ne small]
    obtain h1 where h1: "BinaryHeap_remove T h = Returns () h1" "heap_wf h1"
      "heap_property T h1" "elementCount h1 = elementCount h - 1" "capacity h1 = capacity h"
      by auto
    have "\<exists>h'. apply_ops T h1 ops = Returns () h' \<and> heap_wf h' \<and> heap_property T h'"
      using Cons.prems Remove h1 by (intro Cons.IH) simp_all
    then show ?thesis using h1 Remove by auto
  qed
qed

lemma removes_nonempty_take:
  "removes_nonempty n ops \<Longrightarrow> removes_nonempty n (take k ops)"
proof (induction n ops arbitrary: k rule: removes_nonempty.induct)
  case (1 n)
  then show ?case by simp
next
  case (2 n x ops)
  then show ?case by (cases k) simp_all
next
  case (3 n ops)
  then show ?case by (cases k) simp_all
qed

lemma within_32_bits_take:
  "within_32_bits n c ops \<Longrightarrow> within_32_bits n c (take k ops)"
proof (induction n c ops arbitrary: k rule: within_32_bits.induct)
  case (1 n c)
  then show ?case by simp
next
  case (2 n c x ops)
  then show ?case by (cases k) simp_all
next
  case (3 n c ops)
  then show ?case by (cases k) simp_all
qed

lemma insert_all_spec:
  assumes swo: "strict_weak_order T"
  shows "heap_wf h \<Longrightarrow> heap_property T h \<Longrightarrow> elementCount h + length xs \<le> 2147483648 \<Longrightarrow>
    \<exists>h'. apply_ops T h (map Insert xs) = Returns () h' \<and> heap_wf h' \<and> heap_property T h' \<and>
      elementCount h' = elementCount h + length xs \<and>
      mset (heap_contents h') = mset (heap_contents h) + mset xs"
proof (induction xs arbitrary: h)
  case Nil
  then show ?case by simp
next
  case (Cons x xs)
  from BinaryHeap_insert_spec [OF swo Cons.prems(1,2), of x] Cons.prems(3)
  obtain h1 where h1: "BinaryHeap_insert T x h = Returns True h1" "heap_wf h1"
    "heap_property T h1" "elementCount h1 = elementCount h + 1"
    "mset (heap_contents h1) = add_mset x (mset (heap_contents h))"
    by auto
  have "\<exists>h'. apply_ops T h1 (map Insert xs) = Returns () h' \<and> heap_wf h' \<and>
      heap_property T h' \<and> elementCount h' = elementCount h1 + length xs \<and>
      mset (heap_contents h') = mset (heap_contents h1) + mset xs"
    using Cons.prems h1 by (intro Cons.IH) simp_all
  then show ?case using h1 by auto
qed

lemma drain_spec:
  assumes swo: "strict_weak_order T"
  shows "heap_wf h \<Longrightarrow> heap_property T h \<Longrightarrow> elementCount h \<le> 2147483648 \<Longrightarrow>
    \<exists>ys h'. drain T h = Returns ys h' \<and> elementCount h' = 0 \<and>
      mset ys = mset (heap_contents h) \<and> sorted_wrt (at_most T) ys"
proof (induction "elementCount h" arbitrary: h)
  case 0
  then show ?case
    by (subst drain.simps) (simp add: BinaryHeap_getElementCount_def heap_contents_def)
next
  case (Suc n)
  have ne: "0 < elementCount h" using Suc.hyps(2) by simp
  have nonempty: "elements h \<noteq> []" using Suc.prems(1) by (auto simp: heap_wf_def)
  define x where "x = elements h ! 0"
  have ret: "BinaryHeap_retrieve h = Returns x h"
    using ne nonempty by (simp add: BinaryHeap_retrieve_def x_def)
  from BinaryHeap_remove_spec [OF swo Suc.prems(1,2) ne Suc.prems(3)]
  obtain h1 where h1: "BinaryHeap_remove T h = Returns () h1" "heap_wf h1"
    "heap_property T h1" "elementCount h1 = elementCount h - 1"
    "mset (heap_contents h1) = mset (heap_contents h) - {#x#}"
    by (auto simp: x_def)
  have "n = elementCount h1" using h1(4) Suc.hyps(2) by simp
  moreover have "elementCount h1 \<le> 2147483648" using Suc.prems(3) h1(4) by simp
  ultimately have "\<exists>ys h'. drain T h1 = Returns ys h' \<and> elementCount h' = 0 \<and>
      mset ys = mset (heap_contents h1) \<and> sorted_wrt (at_most T) ys"
    using h1(2,3) by (intro Suc.hyps(1))
  then obtain ys h' where ys: "drain T h1 = Returns ys h'" "elementCount h' = 0"
    "mset ys = mset (heap_contents h1)" "sorted_wrt (at_most T) ys"
    by auto
  have xin: "x \<in> set (heap_contents h)"
    using ne Suc.prems(1) unfolding x_def heap_contents_def heap_wf_def
    by (metis in_set_conv_nth length_take min.absorb2 nth_take)
  have least: "at_most T x y" if "y \<in> set (heap_contents h)" for y
  proof -
    from that obtain i where "i < elementCount h" "y = elements h ! i"
      using Suc.prems(1) unfolding heap_contents_def heap_wf_def
      by (metis in_set_conv_nth length_take min.absorb2 nth_take)
    then show ?thesis
      using heap_property_root_is_least [OF swo Suc.prems(2)] by (simp add: root_is_least_def x_def)
  qed
  have sub: "set ys \<subseteq> set (heap_contents h)"
    using ys(3) h1(5) by (metis in_diffD mset_subset_eqD set_mset_mset subsetI)
  have "mset (x # ys) = mset (heap_contents h)"
    using ys(3) h1(5) xin by simp
  moreover have "sorted_wrt (at_most T) (x # ys)"
    using ys(4) least sub by auto
  moreover have "drain T h = Returns (x # ys) h'"
    using ne ret h1(1) ys(1) by (subst drain.simps) (simp add: BinaryHeap_getElementCount_def)
  ultimately show ?case using ys(2) by blast
qed

text \<open>
  \<^verbatim>\<open>reHeapUp\<close> changes nothing at the root, or below a parent that is not greater.
\<close>

lemma reHeapUp_0: "reHeapUp T es 0 = es"
  by (subst reHeapUp.simps) simp

lemma reHeapUp_stop:
  "0 < i \<Longrightarrow> i < 4294967296 \<Longrightarrow> \<not> operator_greater T (es ! ((i - 1) div 2)) (es ! i) \<Longrightarrow>
   reHeapUp T es i = es"
  by (subst reHeapUp.simps) (simp add: u32_minus_Suc0)

text \<open>
  A heap constructed with capacity \<open>2 ^ 31\<close> takes \<open>2 ^ 31\<close> default-constructed
  events without growing; the next \<^verbatim>\<open>insert\<close> finds it full.
\<close>

lemma insert_default:
  assumes "n < c" "c < 4294967296"
  shows "BinaryHeap_insert Event_ops Event0
      \<lparr>elements = replicate c Event0, capacity = c, elementCount = n\<rparr> =
    Returns True \<lparr>elements = replicate c Event0, capacity = c, elementCount = Suc n\<rparr>"
proof -
  have upd: "(replicate c Event0)[n := Event0] = replicate c Event0"
    using assms(1) by (simp add: list_eq_iff_nth_eq nth_list_update)
  have up: "reHeapUp Event_ops (replicate c Event0) n = replicate c Event0"
  proof (cases "n = 0")
    case True
    then show ?thesis by (simp add: reHeapUp_0)
  next
    case False
    then show ?thesis
      using assms by (intro reHeapUp_stop) (simp_all add: Event_ops_def Event_greater_def)
  qed
  have "u32 (Suc n) = Suc n" using assms by (simp add: u32_id)
  then show ?thesis
    using assms by (simp add: BinaryHeap_insert_def upd up)
qed

lemma fill_with_default:
  "n + k \<le> c \<Longrightarrow> c < 4294967296 \<Longrightarrow>
   apply_ops Event_ops \<lparr>elements = replicate c Event0, capacity = c, elementCount = n\<rparr>
     (map Insert (replicate k Event0)) =
   Returns () \<lparr>elements = replicate c Event0, capacity = c, elementCount = n + k\<rparr>"
proof (induction k arbitrary: n)
  case 0
  then show ?case by simp
next
  case (Suc k)
  have "n < c" using Suc.prems by simp
  from insert_default [OF this Suc.prems(2)] Suc.IH [of "Suc n"] Suc.prems
  show ?case by simp
qed

lemma apply_ops_append:
  "apply_ops T h (ops1 @ ops2) =
     (case apply_ops T h ops1 of Returns u h' \<Rightarrow> apply_ops T h' ops2
      | Throws e h' \<Rightarrow> Throws e h' | Undefined \<Rightarrow> Undefined)"
proof (induction ops1 arbitrary: h)
  case Nil
  show ?case by simp
next
  case (Cons op ops1)
  then show ?case by (cases op) (simp_all split: outcome.splits)
qed

lemma fill_then_overflow:
  "apply_ops Event_ops (BinaryHeap_new Event_ops 2147483648)
     (map Insert (replicate 2147483648 Event0) @ [Insert Event0]) = Undefined"
proof -
  have new: "BinaryHeap_new Event_ops 2147483648 =
      \<lparr>elements = replicate 2147483648 Event0, capacity = 2147483648, elementCount = 0\<rparr>"
    by (simp add: BinaryHeap_new_def Event_ops_def)
  have fill: "apply_ops Event_ops (BinaryHeap_new Event_ops 2147483648)
      (map Insert (replicate 2147483648 Event0)) =
    Returns () \<lparr>elements = replicate 2147483648 Event0, capacity = 2147483648,
      elementCount = 2147483648\<rparr>"
    unfolding new using fill_with_default [of 0 2147483648 2147483648] by simp
  have "BinaryHeap_insert Event_ops Event0 \<lparr>elements = replicate 2147483648 Event0,
      capacity = 2147483648, elementCount = 2147483648\<rparr> = Undefined"
    by (rule BinaryHeap_insert_overflow) simp_all
  then show ?thesis
    by (simp only: apply_ops_append fill outcome.case apply_ops.simps)
qed

section \<open>Properties of Queue\<close>

lemma chain_Nil2 [simp]: "chain c p as [] \<longleftrightarrow> p = None \<and> as = []"
  by (cases as) auto

lemma chain_length: "chain c p as xs \<Longrightarrow> length as = length xs"
  by (induction c p as xs rule: chain.induct) (auto split: option.splits)

lemma chain_update_other:
  "chain c p as xs \<Longrightarrow> b \<notin> set as \<Longrightarrow> chain (c(b := v)) p as xs"
  by (induction c p as xs rule: chain.induct) (auto split: option.splits)

lemma chain_snoc:
  "chain c p (as @ [t]) (xs @ [y]) \<Longrightarrow> distinct (as @ [t]) \<Longrightarrow> b \<notin> set (as @ [t]) \<Longrightarrow>
   c b = Some \<lparr>data = x, next' = None\<rparr> \<Longrightarrow> c t = Some nd \<Longrightarrow>
   chain (c(t \<mapsto> nd\<lparr>next' := Some b\<rparr>)) p (as @ [t, b]) (xs @ [y, x])"
proof (induction as arbitrary: p xs)
  case Nil
  then show ?case by (cases xs) (auto split: option.splits)
next
  case (Cons a as)
  then show ?case by (cases xs) (auto split: option.splits)
qed

lemma queue_rep_new: "queue_rep Queue_new [] []"
  by (simp add: queue_rep_def Queue_new_def)

lemma queue_rep_isEmpty: "queue_rep q as xs \<Longrightarrow> Queue_isEmpty q \<longleftrightarrow> xs = []"
  by (auto simp: queue_rep_def Queue_isEmpty_def dest: chain_length)

lemma queue_rep_length: "queue_rep q as xs \<Longrightarrow> size' q = int (length xs)"
  by (auto simp: queue_rep_def dest: chain_length)

lemma chain_cells: "chain c p as xs \<Longrightarrow> a \<in> set as \<Longrightarrow> \<exists>nd. c a = Some nd"
  by (induction c p as xs rule: chain.induct) (auto split: option.splits)

lemma queue_ok_new: "queue_ok Queue_new []"
  using queue_rep_new by (auto simp: queue_ok_def INT_MAX_def)

lemma queue_ok_isEmpty: "queue_ok q xs \<Longrightarrow> Queue_isEmpty q \<longleftrightarrow> xs = []"
  using queue_rep_isEmpty by (auto simp: queue_ok_def)

lemma Queue_enqueue_rep:
  assumes rep: "queue_rep q as xs" and small: "int (length xs) < INT_MAX"
  shows "\<exists>q'. Queue_enqueue x q = Returns True q' \<and> queue_rep q' (as @ [fresh q]) (xs @ [x])"
proof -
  define f where "f = fresh q"
  define new where "new = \<lparr>data = x, next' = None\<rparr>"
  define c1 where "c1 = (cells q)(f \<mapsto> new)"
  have len: "length as = length xs" and sz: "size' q = int (length xs)"
    using rep by (auto simp: queue_rep_def dest: chain_length)
  have fnew: "f \<notin> set as" using rep by (auto simp: queue_rep_def f_def)
  have ch1: "chain c1 (head q) as xs"
    unfolding c1_def using rep fnew by (intro chain_update_other) (simp add: queue_rep_def)
  have chk: "int_checked (int (length xs) + 1) = Some (int (length xs) + 1)"
    using small by (simp add: int_checked_def INT_MAX_def INT_MIN_def)
  show ?thesis
  proof (cases "as = []")
    case True
    then have "xs = []" using len by simp
    then show ?thesis
      using True rep chk
      by (simp add: Queue_enqueue_def Queue_isEmpty_def Let_def queue_rep_def)
  next
    case False
    then obtain as0 t where as: "as = as0 @ [t]" by (metis rev_exhaust)
    then obtain xs0 y where xs: "xs = xs0 @ [y]" using len by (metis length_0_conv rev_exhaust snoc_eq_iff_butlast)
    have tl: "tail q = Some t" using rep as by (simp add: queue_rep_def)
    obtain nd where nd: "cells q t = Some nd"
      using chain_cells [of "cells q" "head q" as xs t] rep as by (auto simp: queue_rep_def)
    have tf: "t \<noteq> f" using fnew as by auto
    have c1t: "c1 t = Some nd" using nd tf by (simp add: c1_def)
    have c1f: "c1 f = Some \<lparr>data = x, next' = None\<rparr>" by (simp add: c1_def new_def)
    have "chain (c1(t \<mapsto> nd\<lparr>next' := Some f\<rparr>)) (head q) (as0 @ [t, f]) (xs0 @ [y, x])"
      using ch1 rep fnew c1f c1t unfolding as xs
      by (intro chain_snoc) (simp_all add: queue_rep_def)
    moreover have "Queue_enqueue x q = Returns True
        (q\<lparr>cells := c1(t \<mapsto> nd\<lparr>next' := Some f\<rparr>), fresh := f + 1, tail := Some f,
           size' := int (length xs) + 1\<rparr>)"
      using False xs len sz tl c1t chk
      unfolding Queue_enqueue_def Let_def f_def [symmetric] new_def [symmetric] c1_def [symmetric]
      by (simp add: Queue_isEmpty_def)
    ultimately show ?thesis
      using rep fnew len by (auto simp: queue_rep_def as xs f_def less_Suc_eq)
  qed
qed

lemma Queue_enqueue_ok:
  assumes "queue_ok q xs" "int (length xs) < INT_MAX"
  shows "\<exists>q'. Queue_enqueue x q = Returns True q' \<and> queue_ok q' (xs @ [x])"
proof -
  from assms obtain as where "queue_rep q as xs" by (auto simp: queue_ok_def)
  from Queue_enqueue_rep [OF this assms(2), of x] show ?thesis
    using assms(2) by (auto simp: queue_ok_def)
qed

lemma Queue_peek_ok:
  assumes "queue_ok q (x # xs)"
  shows "Queue_peek q = Returns x q"
proof -
  from assms obtain as where rep: "queue_rep q as (x # xs)" by (auto simp: queue_ok_def)
  then obtain a as' where "as = a # as'"
    by (cases as) (auto simp: queue_rep_def)
  then show ?thesis
    using rep by (auto simp: queue_rep_def Queue_peek_def Queue_isEmpty_def split: option.splits)
qed

lemma Queue_dequeue_ok:
  assumes "queue_ok q (x # xs)"
  shows "\<exists>q'. Queue_dequeue q = Returns () q' \<and> queue_ok q' xs"
proof -
  from assms obtain as where rep: "queue_rep q as (x # xs)" and small: "int (length (x # xs)) \<le> INT_MAX"
    by (auto simp: queue_ok_def)
  then obtain a as' where as: "as = a # as'"
    by (cases as) (auto simp: queue_rep_def)
  from rep obtain nd where nd: "head q = Some a" "cells q a = Some nd" "data nd = x"
    "chain (cells q) (next' nd) as' xs"
    by (auto simp: queue_rep_def as split: option.splits)
  have len: "length as' = length xs" using nd(4) by (rule chain_length)
  have sz: "size' q = int (length xs) + 1" using rep len by (simp add: queue_rep_def as)
  have chk: "int_checked (int (length xs)) = Some (int (length xs))"
    using small by (simp add: int_checked_def INT_MAX_def INT_MIN_def)
  have a: "a \<notin> set as'" using rep by (simp add: queue_rep_def as)
  have ch: "chain ((cells q)(a := None)) (next' nd) as' xs"
    using nd(4) a by (rule chain_update_other)
  define q1 where "q1 = q\<lparr>head := next' nd, cells := (cells q)(a := None), size' := int (length xs)\<rparr>"
  have res: "Queue_dequeue q = Returns () (if Queue_isEmpty q1 then q1\<lparr>tail := None\<rparr> else q1)"
    using nd(1,2) sz chk by (simp add: Queue_dequeue_def Queue_isEmpty_def Let_def q1_def)
  have "queue_rep (if Queue_isEmpty q1 then q1\<lparr>tail := None\<rparr> else q1) as' xs"
    using rep ch len by (auto simp: queue_rep_def q1_def as Queue_isEmpty_def)
  then show ?thesis using res small by (auto simp: queue_ok_def)
qed



section \<open>The claims about the containers\<close>

text \<open>
  Claim C2. Construct a heap with a positive capacity and apply any sequence of
  \<^verbatim>\<open>insert\<close> and \<^verbatim>\<open>remove\<close> calls in which no \<^verbatim>\<open>remove\<close> meets an empty heap and
  which stays within the 32-bit arithmetic of the class: no \<^verbatim>\<open>insert\<close> finds the heap
  full at a capacity of \<open>2 ^ 31\<close> or more, and no \<^verbatim>\<open>remove\<close> finds more than \<open>2 ^ 31\<close>
  elements. After each call of the sequence (after its first \<open>k\<close> calls, for every
  \<open>k\<close>) the calls have returned, every parent is at most its children and the element at
  index 0 is at most every stored element. The order is the one the element type's
  \<^verbatim>\<open>operator<\<close> and \<^verbatim>\<open>operator>\<close> define, a strict weak order. The number of calls is
  not bounded.
\<close>

theorem C2_heap_property_after_each_operation:
  assumes "strict_weak_order T" and "0 < cap" and "cap < 4294967296"
    and "removes_nonempty 0 ops" and "within_32_bits 0 cap ops"
  shows "\<exists>h'. apply_ops T (BinaryHeap_new T cap) (take k ops) = Returns () h' \<and>
           heap_property T h' \<and> root_is_least T h'"
proof -
  have wf: "heap_wf (BinaryHeap_new T cap)" using assms(2,3) by (rule heap_wf_new)
  have cnt: "elementCount (BinaryHeap_new T cap) = 0" "capacity (BinaryHeap_new T cap) = cap"
    by (simp_all add: BinaryHeap_new_def)
  have "removes_nonempty (elementCount (BinaryHeap_new T cap)) (take k ops)"
    using assms(4) by (simp add: cnt removes_nonempty_take)
  moreover have "within_32_bits (elementCount (BinaryHeap_new T cap))
      (capacity (BinaryHeap_new T cap)) (take k ops)"
    using assms(5) by (simp add: cnt within_32_bits_take)
  ultimately obtain h' where "apply_ops T (BinaryHeap_new T cap) (take k ops) = Returns () h'"
    "heap_property T h'"
    using apply_ops_within [OF assms(1) wf heap_property_new] by blast
  then show ?thesis
    using heap_property_root_is_least [OF assms(1)] by blast
qed

theorem C2_witness:
  "strict_weak_order Event_ops \<and> (0::nat) < 2 \<and> (2::nat) < 4294967296 \<and>
   removes_nonempty 0
     [Insert (Event3 ARRIVAL 7 2), Insert (Event3 ARRIVAL 3 1), Insert (Event2 DEPARTURE 5),
      Remove, Insert (Event3 ARRIVAL 1 4), Remove] \<and>
   within_32_bits 0 2
     [Insert (Event3 ARRIVAL 7 2), Insert (Event3 ARRIVAL 3 1), Insert (Event2 DEPARTURE 5),
      Remove, Insert (Event3 ARRIVAL 1 4), Remove] \<and>
   (\<exists>h'. apply_ops Event_ops (BinaryHeap_new Event_ops 2)
       (take 6 [Insert (Event3 ARRIVAL 7 2), Insert (Event3 ARRIVAL 3 1),
          Insert (Event2 DEPARTURE 5), Remove, Insert (Event3 ARRIVAL 1 4), Remove]) =
       Returns () h' \<and> heap_property Event_ops h' \<and> root_is_least Event_ops h')"
proof -
  have a: "(0::nat) < 2" and b: "(2::nat) < 4294967296" by simp_all
  have rn: "removes_nonempty 0
     [Insert (Event3 ARRIVAL 7 2), Insert (Event3 ARRIVAL 3 1), Insert (Event2 DEPARTURE 5),
      Remove, Insert (Event3 ARRIVAL 1 4), Remove]"
    by simp
  have w: "within_32_bits 0 2
     [Insert (Event3 ARRIVAL 7 2), Insert (Event3 ARRIVAL 3 1), Insert (Event2 DEPARTURE 5),
      Remove, Insert (Event3 ARRIVAL 1 4), Remove]"
    by simp
  show ?thesis
    using C2_heap_property_after_each_operation [OF strict_weak_order_Event a b rn w, of 6]
      strict_weak_order_Event a b rn w by blast
qed

text \<open>
  Claim C2 without the two conditions on the capacity does not hold. On a heap
  constructed with capacity 0, \<^verbatim>\<open>BinaryHeap<Event> h(0)\<close>, the first \<^verbatim>\<open>insert\<close> doubles the
  capacity 0 to 0 and writes \<^verbatim>\<open>elements[0]\<close> of an array of length 0: the call has
  undefined behaviour and leaves no heap of which the property could hold. On a heap
  constructed with capacity \<open>2 ^ 31\<close> the first \<open>2 ^ 31\<close> insertions return, and the next
  one doubles the capacity to \<open>2 ^ 32\<close>, which is 0 in an \<^verbatim>\<open>unsigned int\<close>, and copies the
  \<open>2 ^ 31\<close> elements into an array of length 0. Neither sequence removes anything.
\<close>

theorem C2_fails_without_capacity_conditions:
  "removes_nonempty 0 [Insert (Event3 ARRIVAL 1 1)] \<and>
   apply_ops Event_ops (BinaryHeap_new Event_ops 0) [Insert (Event3 ARRIVAL 1 1)] = Undefined \<and>
   removes_nonempty 0 (map Insert (replicate 2147483648 Event0) @ [Insert Event0]) \<and>
   apply_ops Event_ops (BinaryHeap_new Event_ops 2147483648)
     (map Insert (replicate 2147483648 Event0) @ [Insert Event0]) = Undefined"
proof -
  have ins: "removes_nonempty n (map Insert xs @ [Insert x])" for n and xs :: "Event list" and x
    by (induction xs arbitrary: n) simp_all
  have a: "removes_nonempty 0 [Insert (Event3 ARRIVAL 1 1)]" by simp
  have b: "apply_ops Event_ops (BinaryHeap_new Event_ops 0) [Insert (Event3 ARRIVAL 1 1)] =
      Undefined"
    by (simp add: BinaryHeap_insert_capacity_0)
  from a b ins fill_then_overflow show ?thesis by blast
qed

text \<open>
  Claim C6. Insert the elements \<open>xs\<close> into a newly constructed heap of any positive
  initial capacity, so that \<^verbatim>\<open>expandHeap\<close> runs as often as the length of \<open>xs\<close>
  requires. All insertions return, the heap property holds afterwards, and
  \<^verbatim>\<open>retrieve\<close> then \<^verbatim>\<open>remove\<close>, repeated until the heap is empty, yields exactly the
  inserted elements (as a multiset) in ascending order of the element comparison, a strict
  weak order. At most \<open>2 ^ 31\<close> elements are inserted. Growth itself: on a full heap of a
  capacity below \<open>2 ^ 31\<close>, \<^verbatim>\<open>expandHeap\<close> doubles the capacity and keeps the existing
  elements where they were, followed by default-constructed ones.
\<close>

theorem C6_growth_preserves_order:
  assumes "strict_weak_order T" and "0 < cap" and "cap < 4294967296"
    and "length xs \<le> 2147483648"
  shows "(\<exists>h ys h'. apply_ops T (BinaryHeap_new T cap) (map Insert xs) = Returns () h \<and>
            heap_property T h \<and> mset (heap_contents h) = mset xs \<and>
            drain T h = Returns ys h' \<and> BinaryHeap_getElementCount h' = 0 \<and>
            mset ys = mset xs \<and> sorted_wrt (at_most T) ys) \<and>
         (\<forall>g. heap_wf g \<and> elementCount g = capacity g \<and> capacity g < 2147483648 \<longrightarrow>
            expandHeap T g = Returns ()
              (g\<lparr>elements := elements g @ replicate (capacity g) (default_constructed T),
                 capacity := 2 * capacity g\<rparr>))"
proof -
  have wf: "heap_wf (BinaryHeap_new T cap)" using assms(2,3) by (rule heap_wf_new)
  have cnt0: "elementCount (BinaryHeap_new T cap) = 0" by (simp add: BinaryHeap_new_def)
  then have "elementCount (BinaryHeap_new T cap) + length xs \<le> 2147483648"
    using assms(4) by simp
  from insert_all_spec [OF assms(1) wf heap_property_new this]
  obtain h where h: "apply_ops T (BinaryHeap_new T cap) (map Insert xs) = Returns () h"
    "heap_wf h" "heap_property T h" "elementCount h = length xs"
    "mset (heap_contents h) = mset xs"
    by (auto simp: heap_contents_new cnt0)
  have "elementCount h \<le> 2147483648" using h(4) assms(4) by simp
  from drain_spec [OF assms(1) h(2,3) this]
  obtain ys h' where "drain T h = Returns ys h'" "elementCount h' = 0"
    "mset ys = mset (heap_contents h)" "sorted_wrt (at_most T) ys"
    by blast
  then have "\<exists>h ys h'. apply_ops T (BinaryHeap_new T cap) (map Insert xs) = Returns () h \<and>
      heap_property T h \<and> mset (heap_contents h) = mset xs \<and>
      drain T h = Returns ys h' \<and> BinaryHeap_getElementCount h' = 0 \<and>
      mset ys = mset xs \<and> sorted_wrt (at_most T) ys"
    using h by (auto simp: BinaryHeap_getElementCount_def)
  then show ?thesis using expandHeap_full by blast
qed

theorem C6_witness:
  "strict_weak_order Event_ops \<and> (0::nat) < 2 \<and> (2::nat) < 4294967296 \<and>
   length [Event3 ARRIVAL 9 1, Event3 ARRIVAL 4 2, Event3 ARRIVAL 6 3, Event3 ARRIVAL 1 4,
     Event3 ARRIVAL 8 5] \<le> 2147483648 \<and>
   (\<exists>h ys h'. apply_ops Event_ops (BinaryHeap_new Event_ops 2)
        (map Insert [Event3 ARRIVAL 9 1, Event3 ARRIVAL 4 2, Event3 ARRIVAL 6 3,
           Event3 ARRIVAL 1 4, Event3 ARRIVAL 8 5]) = Returns () h \<and>
      heap_property Event_ops h \<and>
      mset (heap_contents h) = mset [Event3 ARRIVAL 9 1, Event3 ARRIVAL 4 2,
         Event3 ARRIVAL 6 3, Event3 ARRIVAL 1 4, Event3 ARRIVAL 8 5] \<and>
      drain Event_ops h = Returns ys h' \<and> BinaryHeap_getElementCount h' = 0 \<and>
      mset ys = mset [Event3 ARRIVAL 9 1, Event3 ARRIVAL 4 2, Event3 ARRIVAL 6 3,
         Event3 ARRIVAL 1 4, Event3 ARRIVAL 8 5] \<and>
      sorted_wrt (at_most Event_ops) ys)"
proof -
  have a: "(0::nat) < 2" and b: "(2::nat) < 4294967296" by simp_all
  have c: "length [Event3 ARRIVAL 9 1, Event3 ARRIVAL 4 2, Event3 ARRIVAL 6 3,
     Event3 ARRIVAL 1 4, Event3 ARRIVAL 8 5] \<le> 2147483648" by simp
  show ?thesis
    using C6_growth_preserves_order [OF strict_weak_order_Event a b c] strict_weak_order_Event a b c
    by blast
qed

text \<open>
  Claim C6 for every initial capacity and every number of elements does not hold. A heap
  constructed with capacity 0 cannot grow: inserting the single event \<open>(ARRIVAL, 4, 2)\<close>
  doubles the capacity 0 to 0 and writes past an array of length 0. A heap that is full
  with \<open>2 ^ 31\<close> elements cannot grow either: inserting \<open>2 ^ 31 + 1\<close> default-constructed
  events into a heap constructed with capacity \<open>2 ^ 31\<close> has undefined behaviour at the
  last one, whose doubled capacity \<open>2 ^ 32\<close> is 0 in an \<^verbatim>\<open>unsigned int\<close>.
\<close>

theorem C6_fails_at_capacity_0_and_at_2_31:
  "apply_ops Event_ops (BinaryHeap_new Event_ops 0) (map Insert [Event3 ARRIVAL 4 2]) = Undefined \<and>
   expandHeap Event_ops (BinaryHeap_new Event_ops 0) = Returns () (BinaryHeap_new Event_ops 0) \<and>
   apply_ops Event_ops (BinaryHeap_new Event_ops 2147483648)
     (map Insert (replicate 2147483648 Event0 @ [Event0])) = Undefined"
proof -
  have "expandHeap Event_ops (BinaryHeap_new Event_ops 0) = Returns () (BinaryHeap_new Event_ops 0)"
    by (simp add: expandHeap_def BinaryHeap_new_def u32_def)
  then show ?thesis
    using fill_then_overflow by (simp add: BinaryHeap_insert_capacity_0)
qed



text \<open>
  Claim C4. On an empty heap \<^verbatim>\<open>remove\<close> and \<^verbatim>\<open>retrieve\<close>, on an empty priority
  queue \<^verbatim>\<open>dequeue\<close> and \<^verbatim>\<open>peek\<close>, and on an empty FIFO queue \<^verbatim>\<open>dequeue\<close> and
  \<^verbatim>\<open>peek\<close> throw \<^verbatim>\<open>EmptyDataCollectionException\<close>, and the object after the throw is
  the object before the call, member for member.
\<close>

theorem C4_empty_operations_throw:
  assumes "BinaryHeap_getElementCount h = 0" and "PriorityQueue_isEmpty pq"
    and "Queue_isEmpty q"
  shows "BinaryHeap_remove T h = Throws EmptyDataCollectionException h \<and>
         BinaryHeap_retrieve h = Throws EmptyDataCollectionException h \<and>
         PriorityQueue_dequeue T pq = Throws EmptyDataCollectionException pq \<and>
         PriorityQueue_peek pq = Throws EmptyDataCollectionException pq \<and>
         Queue_dequeue q = Throws EmptyDataCollectionException q \<and>
         Queue_peek q = Throws EmptyDataCollectionException q"
  using assms
  by (simp add: BinaryHeap_remove_def BinaryHeap_retrieve_def BinaryHeap_getElementCount_def
      PriorityQueue_dequeue_def PriorityQueue_peek_def Queue_dequeue_def Queue_peek_def)

theorem C4_witness:
  "BinaryHeap_getElementCount (BinaryHeap_new Event_ops 10) = 0 \<and>
   PriorityQueue_isEmpty (PriorityQueue_new Event_ops) \<and>
   Queue_isEmpty (Queue_new :: Event Queue) \<and>
   BinaryHeap_remove Event_ops (BinaryHeap_new Event_ops 10) =
     Throws EmptyDataCollectionException (BinaryHeap_new Event_ops 10) \<and>
   BinaryHeap_retrieve (BinaryHeap_new Event_ops 10) =
     Throws EmptyDataCollectionException (BinaryHeap_new Event_ops 10) \<and>
   PriorityQueue_dequeue Event_ops (PriorityQueue_new Event_ops) =
     Throws EmptyDataCollectionException (PriorityQueue_new Event_ops) \<and>
   PriorityQueue_peek (PriorityQueue_new Event_ops) =
     Throws EmptyDataCollectionException (PriorityQueue_new Event_ops) \<and>
   Queue_dequeue (Queue_new :: Event Queue) = Throws EmptyDataCollectionException Queue_new \<and>
   Queue_peek (Queue_new :: Event Queue) = Throws EmptyDataCollectionException Queue_new"
proof -
  have a: "BinaryHeap_getElementCount (BinaryHeap_new Event_ops 10) = 0"
    by (simp add: BinaryHeap_getElementCount_def BinaryHeap_new_def)
  have b: "PriorityQueue_isEmpty (PriorityQueue_new Event_ops)"
    by (simp add: PriorityQueue_isEmpty_def PriorityQueue_new_def
        BinaryHeap_getElementCount_def BinaryHeap_new_def)
  have c: "Queue_isEmpty (Queue_new :: Event Queue)"
    by (simp add: Queue_isEmpty_def Queue_new_def)
  show ?thesis
    using C4_empty_operations_throw [OF a b c, of Event_ops] a b c by blast
qed

section \<open>Properties of the simulation\<close>

lemma pq_ok_new: "pq_ok T (PriorityQueue_new T)"
proof -
  have "(1::nat) \<le> 31 \<and> (2::nat) = 2 ^ 1" by simp
  then have "\<exists>k. k \<le> 31 \<and> (2::nat) = 2 ^ k" by blast
  then show ?thesis
    by (simp add: pq_ok_def PriorityQueue_new_def heap_wf_new heap_property_new)
      (simp add: BinaryHeap_new_def)
qed

lemma pq_contents_new: "pq_contents (PriorityQueue_new T) = {#}"
  by (simp add: pq_contents_def PriorityQueue_new_def heap_contents_new)

lemma pq_ok_count:
  assumes "pq_ok T pq"
  shows "elementCount (minheap pq) \<le> 2147483648"
proof -
  from assms obtain k where k: "k \<le> 31" "capacity (minheap pq) = 2 ^ k"
    by (auto simp: pq_ok_def)
  have "(2::nat) ^ k \<le> 2 ^ 31" using k(1) by (intro power_increasing) simp_all
  then show ?thesis using assms k(2) by (simp add: pq_ok_def heap_wf_def)
qed

lemma pq_isEmpty_contents:
  "pq_ok T pq \<Longrightarrow> PriorityQueue_isEmpty pq \<longleftrightarrow> pq_contents pq = {#}"
  by (auto simp: pq_ok_def heap_wf_def PriorityQueue_isEmpty_def BinaryHeap_getElementCount_def
      pq_contents_def heap_contents_def)

lemma heap_contents_nth:
  "heap_wf h \<Longrightarrow> x \<in> set (heap_contents h) \<longleftrightarrow> (\<exists>i < elementCount h. x = elements h ! i)"
  unfolding heap_contents_def heap_wf_def
  by (auto simp: in_set_conv_nth)

lemma PriorityQueue_peek_ok:
  assumes swo: "strict_weak_order T" and ok: "pq_ok T pq" and ne: "\<not> PriorityQueue_isEmpty pq"
  shows "PriorityQueue_peek pq = Returns (elements (minheap pq) ! 0) pq \<and>
         elements (minheap pq) ! 0 \<in># pq_contents pq \<and>
         (\<forall>x \<in># pq_contents pq. at_most T (elements (minheap pq) ! 0) x)"
proof -
  have wf: "heap_wf (minheap pq)" and hp: "heap_property T (minheap pq)"
    using ok by (simp_all add: pq_ok_def)
  have cnt: "0 < elementCount (minheap pq)"
    using ne by (simp add: PriorityQueue_isEmpty_def BinaryHeap_getElementCount_def)
  have "elements (minheap pq) \<noteq> []" using wf by (auto simp: heap_wf_def)
  then have "PriorityQueue_peek pq = Returns (elements (minheap pq) ! 0) pq"
    using ne cnt by (simp add: PriorityQueue_peek_def BinaryHeap_retrieve_def on_member_def)
  moreover have "elements (minheap pq) ! 0 \<in># pq_contents pq"
    using cnt heap_contents_nth [OF wf] by (auto simp: pq_contents_def)
  moreover have "at_most T (elements (minheap pq) ! 0) x" if "x \<in># pq_contents pq" for x
    using that heap_contents_nth [OF wf] heap_property_root_is_least [OF swo hp]
    by (auto simp: pq_contents_def root_is_least_def)
  ultimately show ?thesis by blast
qed

lemma PriorityQueue_dequeue_ok:
  assumes swo: "strict_weak_order T" and ok: "pq_ok T pq" and ne: "\<not> PriorityQueue_isEmpty pq"
  shows "\<exists>pq'. PriorityQueue_dequeue T pq = Returns () pq' \<and> pq_ok T pq' \<and>
           pq_contents pq' = pq_contents pq - {#elements (minheap pq) ! 0#}"
proof -
  have wf: "heap_wf (minheap pq)" and hp: "heap_property T (minheap pq)"
    using ok by (simp_all add: pq_ok_def)
  have cnt: "0 < elementCount (minheap pq)"
    using ne by (simp add: PriorityQueue_isEmpty_def BinaryHeap_getElementCount_def)
  from BinaryHeap_remove_spec [OF swo wf hp cnt pq_ok_count [OF ok]]
  obtain h' where h': "BinaryHeap_remove T (minheap pq) = Returns () h'" "heap_wf h'"
    "heap_property T h'" "capacity h' = capacity (minheap pq)"
    "mset (heap_contents h') = mset (heap_contents (minheap pq)) - {#elements (minheap pq) ! 0#}"
    by blast
  have "PriorityQueue_dequeue T pq = Returns () (pq\<lparr>minheap := h'\<rparr>)"
    using ne h'(1) by (simp add: PriorityQueue_dequeue_def on_member_def)
  moreover have "pq_ok T (pq\<lparr>minheap := h'\<rparr>)"
    using ok h'(2,3,4) by (simp add: pq_ok_def)
  moreover have "pq_contents (pq\<lparr>minheap := h'\<rparr>) =
      pq_contents pq - {#elements (minheap pq) ! 0#}"
    using h'(5) by (simp add: pq_contents_def)
  ultimately show ?thesis by blast
qed

lemma PriorityQueue_enqueue_ok:
  assumes swo: "strict_weak_order T" and ok: "pq_ok T pq"
    and ret: "PriorityQueue_enqueue T x pq = Returns b pq'"
  shows "pq_ok T pq' \<and> pq_contents pq' = add_mset x (pq_contents pq)"
proof -
  have wf: "heap_wf (minheap pq)" and hp: "heap_property T (minheap pq)"
    using ok by (simp_all add: pq_ok_def)
  from ok obtain k where k: "k \<le> 31" "capacity (minheap pq) = 2 ^ k"
    by (auto simp: pq_ok_def)
  have small: "elementCount (minheap pq) < 2147483648"
  proof (rule ccontr)
    assume "\<not> elementCount (minheap pq) < 2147483648"
    then have "elementCount (minheap pq) = 2147483648" "capacity (minheap pq) = 2147483648"
      using pq_ok_count [OF ok] wf k power_increasing [of k 31 "2::nat"]
      by (simp_all add: heap_wf_def)
    then have "BinaryHeap_insert T x (minheap pq) = Undefined"
      by (rule BinaryHeap_insert_overflow)
    then show False using ret by (simp add: PriorityQueue_enqueue_def on_member_def)
  qed
  from BinaryHeap_insert_spec [OF swo wf hp small, of x]
  obtain h' where h': "BinaryHeap_insert T x (minheap pq) = Returns True h'" "heap_wf h'"
    "heap_property T h'"
    "capacity h' = (if elementCount (minheap pq) = capacity (minheap pq)
       then 2 * capacity (minheap pq) else capacity (minheap pq))"
    "mset (heap_contents h') = add_mset x (mset (heap_contents (minheap pq)))"
    by blast
  have pq': "pq' = pq\<lparr>minheap := h'\<rparr>"
    using ret h'(1) by (simp add: PriorityQueue_enqueue_def on_member_def)
  have "\<exists>k'. k' \<le> 31 \<and> capacity h' = 2 ^ k'"
  proof (cases "elementCount (minheap pq) = capacity (minheap pq)")
    case True
    have "k < 31"
    proof (rule ccontr)
      assume "\<not> k < 31"
      then have "(2::nat) ^ 31 \<le> 2 ^ k" by (intro power_increasing) simp_all
      then show False using small k(2) True by simp
    qed
    then have "Suc k \<le> 31 \<and> capacity h' = 2 ^ Suc k" using h'(4) True k(2) by simp
    then show ?thesis by blast
  next
    case False
    then show ?thesis using h'(4) k by auto
  qed
  then show ?thesis using h'(2,3,5) by (simp add: pq' pq_ok_def pq_contents_def)
qed

lemma Queue_enqueue_Returns:
  assumes "queue_ok q xs" "Queue_enqueue x q = Returns b q'"
  shows "queue_ok q' (xs @ [x])"
proof (cases "int (length xs) < INT_MAX")
  case True
  from Queue_enqueue_ok [OF assms(1) True, of x] show ?thesis using assms(2) by auto
next
  case False
  from assms(1) obtain as where "queue_rep q as xs" by (auto simp: queue_ok_def)
  then have "size' q = int (length xs)" by (rule queue_rep_length)
  then have "int_checked (size' q + 1) = None"
    using False by (simp add: int_checked_def)
  then have "Queue_enqueue x q = Undefined"
    by (auto simp: Queue_enqueue_def Let_def split: option.splits)
  then show ?thesis using assms(2) by simp
qed

lemma then_do_Returns:
  "then_do res f = Returns r s \<longleftrightarrow> (\<exists>r1 s1. res = Returns r1 s1 \<and> f r1 s1 = Returns r s)"
  by (cases res) (auto simp: then_do_def)

lemma on_member_Returns:
  "on_member g res = Returns r s \<longleftrightarrow> (\<exists>s1. res = Returns r s1 \<and> s = g s1)"
  by (cases res) (auto simp: on_member_def)

lemma int_checked_Some: "int_checked x = Some y \<Longrightarrow> y = x"
  by (auto simp: int_checked_def split: if_splits)

lemma at_most_Event: "at_most Event_ops a b \<longleftrightarrow> time a \<le> time b"
  by (auto simp: at_most_def Event_ops_def Event_greater_def)

lemma processArrival_refines:
  assumes ok: "sim_ok s line" and ne: "\<not> PriorityQueue_isEmpty (eventPriorityQueue s)"
    and e: "e = elements (minheap (eventPriorityQueue s)) ! 0"
    and ret: "processArrival e s = Returns () s'"
  shows "\<exists>line'. sim_ok s' line' \<and> simulationTime s' = simulationTime s \<and>
      cumulativeWaitTime s' = cumulativeWaitTime s \<and>
      ((line = [] \<and> tellerAvailable s \<and> line' = [] \<and> \<not> tellerAvailable s' \<and>
        pq_contents (eventPriorityQueue s') =
          add_mset (Event2 DEPARTURE (simulationTime s + length' e))
            (pq_contents (eventPriorityQueue s) - {#e#})) \<or>
       (\<not> (line = [] \<and> tellerAvailable s) \<and> line' = line @ [e] \<and>
        tellerAvailable s' = tellerAvailable s \<and>
        pq_contents (eventPriorityQueue s') = pq_contents (eventPriorityQueue s) - {#e#}))"
proof -
  have pok: "pq_ok Event_ops (eventPriorityQueue s)" and qok: "queue_ok (bankLine s) line"
    using ok by (simp_all add: sim_ok_def)
  from PriorityQueue_dequeue_ok [OF strict_weak_order_Event pok ne]
  obtain pq1 where pq1: "PriorityQueue_dequeue Event_ops (eventPriorityQueue s) = Returns () pq1"
    "pq_ok Event_ops pq1" "pq_contents pq1 = pq_contents (eventPriorityQueue s) - {#e#}"
    using e by blast
  define s1 where "s1 = s\<lparr>eventPriorityQueue := pq1\<rparr>"
  have emp: "Queue_isEmpty (bankLine s) \<longleftrightarrow> line = []" using qok by (rule queue_ok_isEmpty)
  show ?thesis
  proof (cases "line = [] \<and> tellerAvailable s")
    case True
    from ret obtain d b pq2 where d: "int_checked (simulationTime s + getLength e) = Some d"
      and pq2: "PriorityQueue_enqueue Event_ops (Event2 DEPARTURE d) pq1 = Returns b pq2"
      and s': "s' = s1\<lparr>eventPriorityQueue := pq2, tellerAvailable := False\<rparr>"
      using True emp
      by (auto simp: processArrival_def pq1(1) then_do_Returns on_member_Returns
          on_eventPriorityQueue_def s1_def split: option.splits)
    have deq: "d = simulationTime s + length' e"
      using int_checked_Some [OF d] by (simp add: getLength_def)
    from PriorityQueue_enqueue_ok [OF strict_weak_order_Event pq1(2) pq2]
    have "pq_ok Event_ops pq2" "pq_contents pq2 = add_mset (Event2 DEPARTURE d) (pq_contents pq1)"
      by simp_all
    then show ?thesis
      using True qok pq1(3) by (auto simp: s' s1_def sim_ok_def deq)
  next
    case False
    from ret obtain b q' where q': "Queue_enqueue e (bankLine s) = Returns b q'"
      and s': "s' = s1\<lparr>bankLine := q'\<rparr>"
      using False emp
      by (auto simp: processArrival_def pq1(1) then_do_Returns on_member_Returns
          on_eventPriorityQueue_def on_bankLine_def s1_def)
    have "queue_ok q' (line @ [e])" using qok q' by (rule Queue_enqueue_Returns)
    then show ?thesis
      using False pq1(2,3) by (auto simp: s' s1_def sim_ok_def)
  qed
qed

lemma processDeparture_refines:
  assumes ok: "sim_ok s line" and ne: "\<not> PriorityQueue_isEmpty (eventPriorityQueue s)"
    and e: "e = elements (minheap (eventPriorityQueue s)) ! 0"
    and ret: "processDeparture e s = Returns () s'"
  shows "\<exists>line'. sim_ok s' line' \<and> simulationTime s' = simulationTime s \<and>
      ((\<exists>c. line = c # line' \<and> tellerAvailable s' = tellerAvailable s \<and>
        cumulativeWaitTime s' = cumulativeWaitTime s + (simulationTime s - time c) \<and>
        pq_contents (eventPriorityQueue s') =
          add_mset (Event2 DEPARTURE (simulationTime s + length' c))
            (pq_contents (eventPriorityQueue s) - {#e#})) \<or>
       (line = [] \<and> line' = [] \<and> tellerAvailable s' \<and>
        cumulativeWaitTime s' = cumulativeWaitTime s \<and>
        pq_contents (eventPriorityQueue s') = pq_contents (eventPriorityQueue s) - {#e#}))"
proof -
  have pok: "pq_ok Event_ops (eventPriorityQueue s)" and qok: "queue_ok (bankLine s) line"
    using ok by (simp_all add: sim_ok_def)
  from PriorityQueue_dequeue_ok [OF strict_weak_order_Event pok ne]
  obtain pq1 where pq1: "PriorityQueue_dequeue Event_ops (eventPriorityQueue s) = Returns () pq1"
    "pq_ok Event_ops pq1" "pq_contents pq1 = pq_contents (eventPriorityQueue s) - {#e#}"
    using e by blast
  define s1 where "s1 = s\<lparr>eventPriorityQueue := pq1\<rparr>"
  have emp: "Queue_isEmpty (bankLine s) \<longleftrightarrow> line = []" using qok by (rule queue_ok_isEmpty)
  show ?thesis
  proof (cases line)
    case Nil
    then have "s' = s1\<lparr>tellerAvailable := True\<rparr>"
      using ret emp
      by (auto simp: processDeparture_def pq1(1) then_do_Returns on_member_Returns
          on_eventPriorityQueue_def s1_def)
    then show ?thesis using Nil qok pq1(2,3) by (auto simp: s1_def sim_ok_def)
  next
    case (Cons c rest)
    have pk: "Queue_peek (bankLine s) = Returns c (bankLine s)"
      using qok unfolding Cons by (rule Queue_peek_ok)
    from Queue_dequeue_ok [OF qok [unfolded Cons]]
    obtain q' where q': "Queue_dequeue (bankLine s) = Returns () q'" "queue_ok q' rest" by blast
    from ret obtain wt sw d b pq2 where
      wt: "int_checked (simulationTime s - getTime c) = Some wt"
      and sw: "int_checked (cumulativeWaitTime s + wt) = Some sw"
      and d: "int_checked (simulationTime s + getLength c) = Some d"
      and pq2: "PriorityQueue_enqueue Event_ops (Event2 DEPARTURE d) pq1 = Returns b pq2"
      and s': "s' = s1\<lparr>bankLine := q', cumulativeWaitTime := sw, eventPriorityQueue := pq2\<rparr>"
      using emp Cons
      by (auto simp: processDeparture_def pq1(1) pk q'(1) then_do_Returns on_member_Returns
          on_eventPriorityQueue_def on_bankLine_def s1_def split: option.splits)
    have eqs: "wt = simulationTime s - time c" "sw = cumulativeWaitTime s + wt"
      "d = simulationTime s + length' c"
      using int_checked_Some [OF wt] int_checked_Some [OF sw] int_checked_Some [OF d]
      by (simp_all add: getTime_def getLength_def)
    from PriorityQueue_enqueue_ok [OF strict_weak_order_Event pq1(2) pq2]
    have "pq_ok Event_ops pq2" "pq_contents pq2 = add_mset (Event2 DEPARTURE d) (pq_contents pq1)"
      by simp_all
    then show ?thesis
      using Cons q'(2) pq1(3) by (auto simp: s' s1_def sim_ok_def eqs)
  qed
qed

lemma loop_body_refines:
  assumes ok: "sim_ok s line" and ne: "\<not> PriorityQueue_isEmpty (eventPriorityQueue s)"
    and ret: "loop_body s = Returns () s'"
  shows "\<exists>line'. sim_ok s' line' \<and> abstract_step (view s line) (view s' line')"
proof -
  define e where "e = elements (minheap (eventPriorityQueue s)) ! 0"
  define P where "P = pq_contents (eventPriorityQueue s)"
  have pok: "pq_ok Event_ops (eventPriorityQueue s)" using ok by (simp add: sim_ok_def)
  from PriorityQueue_peek_ok [OF strict_weak_order_Event pok ne]
  have pk: "PriorityQueue_peek (eventPriorityQueue s) = Returns e (eventPriorityQueue s)"
    and ear: "earliest e P"
    by (simp_all add: e_def P_def earliest_def at_most_Event)
  define kind where "kind = (if isArrival e then ''arrival'' else ''departure'')"
  define sa where "sa = outputEventProcessing e kind (s\<lparr>simulationTime := getTime e\<rparr>)"
  have sa: "eventPriorityQueue sa = eventPriorityQueue s" "bankLine sa = bankLine s"
    "tellerAvailable sa = tellerAvailable s" "cumulativeWaitTime sa = cumulativeWaitTime s"
    "simulationTime sa = time e"
    by (simp_all add: sa_def outputEventProcessing_def getTime_def)
  have oka: "sim_ok sa line" using ok by (simp add: sim_ok_def sa)
  have nea: "\<not> PriorityQueue_isEmpty (eventPriorityQueue sa)" using ne by (simp add: sa)
  have ea: "e = elements (minheap (eventPriorityQueue sa)) ! 0" by (simp add: sa e_def)
  have body: "loop_body s = (if isArrival e then processArrival e sa else processDeparture e sa)"
    by (simp add: loop_body_def pk on_eventPriorityQueue_def on_member_def then_do_def Let_def
        sa_def kind_def)
  show ?thesis
  proof (cases "isArrival e")
    case True
    then have "processArrival e sa = Returns () s'" using ret body by simp
    from processArrival_refines [OF oka nea ea this]
    obtain line' where l: "sim_ok s' line'" "simulationTime s' = time e"
      "cumulativeWaitTime s' = cumulativeWaitTime s"
      "(line = [] \<and> tellerAvailable s \<and> line' = [] \<and> \<not> tellerAvailable s' \<and>
        pq_contents (eventPriorityQueue s') =
          add_mset (Event2 DEPARTURE (time e + length' e)) (P - {#e#})) \<or>
       (\<not> (line = [] \<and> tellerAvailable s) \<and> line' = line @ [e] \<and>
        tellerAvailable s' = tellerAvailable s \<and>
        pq_contents (eventPriorityQueue s') = P - {#e#})"
      by (auto simp: sa P_def)
    from l(4) have "abstract_step (view s line) (view s' line')"
    proof
      assume "line = [] \<and> tellerAvailable s \<and> line' = [] \<and> \<not> tellerAvailable s' \<and>
        pq_contents (eventPriorityQueue s') =
          add_mset (Event2 DEPARTURE (time e + length' e)) (P - {#e#})"
      then show ?thesis
        using abstract_step.serve [OF ear True, of "simulationTime s" "cumulativeWaitTime s"] l(2,3)
        by (simp add: view_def P_def)
    next
      assume a: "\<not> (line = [] \<and> tellerAvailable s) \<and> line' = line @ [e] \<and>
        tellerAvailable s' = tellerAvailable s \<and>
        pq_contents (eventPriorityQueue s') = P - {#e#}"
      then have "\<not> (line = [] \<and> tellerAvailable s)" by simp
      from abstract_step.wait [OF ear True this, of "simulationTime s" "cumulativeWaitTime s"]
      show ?thesis using a l(2,3) by (simp add: view_def P_def)
    qed
    then show ?thesis using l(1) by blast
  next
    case False
    then have "processDeparture e sa = Returns () s'" using ret body by simp
    from processDeparture_refines [OF oka nea ea this]
    obtain line' where l: "sim_ok s' line'" "simulationTime s' = time e"
      "(\<exists>c. line = c # line' \<and> tellerAvailable s' = tellerAvailable s \<and>
        cumulativeWaitTime s' = cumulativeWaitTime s + (time e - time c) \<and>
        pq_contents (eventPriorityQueue s') =
          add_mset (Event2 DEPARTURE (time e + length' c)) (P - {#e#})) \<or>
       (line = [] \<and> line' = [] \<and> tellerAvailable s' \<and>
        cumulativeWaitTime s' = cumulativeWaitTime s \<and>
        pq_contents (eventPriorityQueue s') = P - {#e#})"
      by (auto simp: sa P_def)
    from l(3) have "abstract_step (view s line) (view s' line')"
    proof
      assume "\<exists>c. line = c # line' \<and> tellerAvailable s' = tellerAvailable s \<and>
        cumulativeWaitTime s' = cumulativeWaitTime s + (time e - time c) \<and>
        pq_contents (eventPriorityQueue s') =
          add_mset (Event2 DEPARTURE (time e + length' c)) (P - {#e#})"
      then obtain c where c: "line = c # line'" "tellerAvailable s' = tellerAvailable s"
        "cumulativeWaitTime s' = cumulativeWaitTime s + (time e - time c)"
        "pq_contents (eventPriorityQueue s') =
          add_mset (Event2 DEPARTURE (time e + length' c)) (P - {#e#})"
        by blast
      from abstract_step.next_customer [OF ear False, of c line' "tellerAvailable s"
          "simulationTime s" "cumulativeWaitTime s"]
      show ?thesis using c l(2) by (simp add: view_def P_def)
    next
      assume a: "line = [] \<and> line' = [] \<and> tellerAvailable s' \<and>
        cumulativeWaitTime s' = cumulativeWaitTime s \<and>
        pq_contents (eventPriorityQueue s') = P - {#e#}"
      from abstract_step.idle [OF ear False, of "tellerAvailable s" "simulationTime s"
          "cumulativeWaitTime s"]
      show ?thesis using a l(2) by (simp add: view_def P_def)
    qed
    then show ?thesis using l(1) by blast
  qed
qed

lemma no_departure_iff:
  "size {#e \<in># P. \<not> isArrival e#} = 0 \<longleftrightarrow> (\<forall>e \<in># P. isArrival e)"
  by auto

lemma isArrival_Event2_DEPARTURE: "\<not> isArrival (Event2 DEPARTURE t)"
  by (simp add: isArrival_def Event2_def)

lemma filter_diff_arrival:
  "isArrival e \<Longrightarrow> {#x \<in># P - {#e#}. \<not> isArrival x#} = {#x \<in># P. \<not> isArrival x#}"
  by simp

lemma filter_diff_departure:
  "\<not> isArrival e \<Longrightarrow> e \<in># P \<Longrightarrow>
   size {#x \<in># P - {#e#}. \<not> isArrival x#} = size {#x \<in># P. \<not> isArrival x#} - 1"
  by (simp add: size_Diff_singleton)

lemma abstract_step_teller_inv:
  assumes "abstract_step v v'" "teller_inv v"
  shows "teller_inv v'"
  using assms
proof cases
  case (serve e P t w)
  then have "\<forall>x \<in># P - {#e#}. isArrival x" using assms(2)
    by (auto simp: teller_inv_def dest: in_diffD)
  then have "size {#x \<in># P - {#e#}. \<not> isArrival x#} = 0" by (simp only: no_departure_iff)
  then show ?thesis using serve by (simp add: teller_inv_def isArrival_Event2_DEPARTURE)
next
  case (wait e P line a t w)
  then have "\<not> a" using assms(2) by (auto simp: teller_inv_def)
  then show ?thesis using wait assms(2) by (simp add: teller_inv_def filter_diff_arrival)
next
  case (next_customer e P c line a t w)
  then have a: "\<not> a" "size {#x \<in># P. \<not> isArrival x#} = 1"
    using assms(2) by (auto simp: teller_inv_def)
  have "size {#x \<in># P - {#e#}. \<not> isArrival x#} = 0"
    using filter_diff_departure [of e P] next_customer a(2) by (simp add: earliest_def)
  then show ?thesis using next_customer a by (simp add: teller_inv_def isArrival_Event2_DEPARTURE)
next
  case (idle e P a t w)
  have "\<not> a"
  proof
    assume a
    then have "isArrival e" using idle assms(2) by (auto simp: teller_inv_def earliest_def)
    then show False using idle by simp
  qed
  then have "size {#x \<in># P. \<not> isArrival x#} = 1" using idle assms(2) by (simp add: teller_inv_def)
  then have "size {#x \<in># P - {#e#}. \<not> isArrival x#} = 0"
    using filter_diff_departure [of e P] idle by (simp add: earliest_def)
  then have "\<forall>x \<in># P - {#e#}. isArrival x" by (simp only: no_departure_iff)
  then show ?thesis using idle by (simp add: teller_inv_def)
qed

lemma abstract_step_time_inv:
  assumes "abstract_step v v'" "time_inv v"
  shows "time_inv v' \<and> fst (snd (snd (snd v))) \<le> fst (snd (snd (snd v'))) \<and>
         snd (snd (snd (snd v))) \<le> snd (snd (snd (snd v')))"
  using assms
proof cases
  case (serve e P t w)
  then show ?thesis using assms(2)
    by (auto simp: time_inv_def earliest_def Event2_def dest: in_diffD)
next
  case (wait e P line a t w)
  then show ?thesis using assms(2)
    by (auto simp: time_inv_def earliest_def dest: in_diffD) force+
next
  case (next_customer e P c line a t w)
  then show ?thesis using assms(2)
    by (auto simp: time_inv_def earliest_def Event2_def dest: in_diffD) force+
next
  case (idle e P a t w)
  then show ?thesis using assms(2)
    by (auto simp: time_inv_def earliest_def dest: in_diffD)
qed

lemma read_customers_ok:
  "pq_ok Event_ops (eventPriorityQueue s) \<Longrightarrow> read_customers input s = Returns () s' \<Longrightarrow>
   pq_ok Event_ops (eventPriorityQueue s') \<and>
   pq_contents (eventPriorityQueue s') =
     pq_contents (eventPriorityQueue s) +
     mset (map (\<lambda>(arriveTime, processTime). Event3 ARRIVAL arriveTime processTime) input) \<and>
   bankLine s' = bankLine s \<and> tellerAvailable s' = tellerAvailable s \<and>
   simulationTime s' = simulationTime s \<and> cumulativeWaitTime s' = cumulativeWaitTime s"
proof (induction input arbitrary: s)
  case Nil
  then show ?case by simp
next
  case (Cons p rest)
  obtain a l where p: "p = (a, l)" by (cases p)
  from Cons.prems(2) obtain b pq1 n where
    pq1: "PriorityQueue_enqueue Event_ops (Event3 ARRIVAL a l) (eventPriorityQueue s) = Returns b pq1"
    and rest: "read_customers rest (s\<lparr>eventPriorityQueue := pq1, customerCount := n\<rparr>) = Returns () s'"
    by (auto simp: p then_do_Returns on_member_Returns on_eventPriorityQueue_def
        split: option.splits)
  from PriorityQueue_enqueue_ok [OF strict_weak_order_Event Cons.prems(1) pq1]
  have ok1: "pq_ok Event_ops pq1"
    and c1: "pq_contents pq1 = add_mset (Event3 ARRIVAL a l) (pq_contents (eventPriorityQueue s))"
    by simp_all
  from Cons.IH [OF _ rest] ok1 c1 show ?case by (simp add: p)
qed

lemma initial_inv:
  assumes "read_customers input Sim_initial = Returns () s"
  shows "sim_ok s [] \<and> teller_inv (view s []) \<and> (non_negative_input input \<longrightarrow> time_inv (view s []))"
proof -
  have "pq_ok Event_ops (eventPriorityQueue Sim_initial)"
    by (simp add: Sim_initial_def pq_ok_new)
  from read_customers_ok [OF this assms]
  have s: "pq_ok Event_ops (eventPriorityQueue s)"
    "pq_contents (eventPriorityQueue s) =
       mset (map (\<lambda>(arriveTime, processTime). Event3 ARRIVAL arriveTime processTime) input)"
    "bankLine s = Queue_new" "tellerAvailable s" "simulationTime s = 0"
    by (simp_all add: Sim_initial_def pq_contents_new)
  have "sim_ok s []" using s(1,3) by (simp add: sim_ok_def queue_ok_new)
  moreover have "teller_inv (view s [])"
    using s(2,4) by (auto simp: teller_inv_def view_def isArrival_def Event3_def)
  moreover have "time_inv (view s [])" if "non_negative_input input"
    using that s(2,5)
    by (auto simp: time_inv_def view_def non_negative_input_def list_all_iff Event3_def)
  ultimately show ?thesis by blast
qed

lemma reachable_inv:
  assumes "reachable input s"
  shows "\<exists>line. sim_ok s line \<and> teller_inv (view s line) \<and>
           (non_negative_input input \<longrightarrow> time_inv (view s line))"
  using assms
proof induction
  case (start s)
  then show ?case using initial_inv by blast
next
  case (step s s')
  then obtain line where l: "sim_ok s line" "teller_inv (view s line)"
    "non_negative_input input \<longrightarrow> time_inv (view s line)"
    by blast
  from loop_body_refines [OF l(1) step.hyps(2,3)]
  obtain line' where l': "sim_ok s' line'" "abstract_step (view s line) (view s' line')" by blast
  have "teller_inv (view s' line')" using l'(2) l(2) by (rule abstract_step_teller_inv)
  moreover have "time_inv (view s' line')" if "non_negative_input input"
    using abstract_step_time_inv [OF l'(2)] l(3) that by simp
  ultimately show ?case using l'(1) by blast
qed

text \<open>The scenario, evaluated.\<close>

lemma reHeapDown_leaf:
  "n \<le> 2 * r + 1 \<Longrightarrow> r < 2147483647 \<Longrightarrow> reHeapDown T n es r = Some es"
  by (subst reHeapDown.simps) (simp add: u32_id)

lemma replicate_2: "replicate 2 x = [x, x]"
  by (simp add: numeral_2_eq_2)

lemmas sim_defs = replicate_2 then_do_def on_member_def on_eventPriorityQueue_def on_bankLine_def
  processArrival_def processDeparture_def outputEventProcessing_def loop_body_def
  PriorityQueue_peek_def PriorityQueue_dequeue_def PriorityQueue_enqueue_def
  PriorityQueue_isEmpty_def PriorityQueue_new_def
  BinaryHeap_insert_def BinaryHeap_retrieve_def BinaryHeap_remove_def BinaryHeap_new_def
  BinaryHeap_getElementCount_def expandHeap_def
  Queue_enqueue_def Queue_dequeue_def Queue_peek_def Queue_isEmpty_def Queue_new_def
  Event_ops_def Event_greater_def Event_less_def Event2_def Event3_def Event0_def
  getTime_def getLength_def isArrival_def int_checked_def INT_MAX_def INT_MIN_def
  reHeapUp_0 reHeapUp_stop reHeapDown_leaf u32_def u32_minus_def Let_def

lemma scenario_reading: "read_customers [(0, 10), (2, 3)] Sim_initial = Returns () scenario_read"
  by (simp add: Sim_initial_def scenario_read_def sim_defs)

lemma scenario_step1: "loop_body scenario_read = Returns () scenario_A_served"
  by (simp add: scenario_read_def scenario_A_served_def sim_defs)

lemma scenario_step2: "loop_body scenario_A_served = Returns () scenario_B_waits"
  by (simp add: scenario_A_served_def scenario_B_waits_def sim_defs)

lemma scenario_step3: "loop_body scenario_B_waits = Returns () scenario_B_served"
  by (simp add: scenario_B_waits_def scenario_B_served_def sim_defs)

lemma scenario_step4: "loop_body scenario_B_served = Returns () scenario_end"
  by (simp add: scenario_B_served_def scenario_end_def sim_defs)

lemma scenario_nonempty: "\<not> PriorityQueue_isEmpty (eventPriorityQueue scenario_read)"
  "\<not> PriorityQueue_isEmpty (eventPriorityQueue scenario_A_served)"
  "\<not> PriorityQueue_isEmpty (eventPriorityQueue scenario_B_waits)"
  "\<not> PriorityQueue_isEmpty (eventPriorityQueue scenario_B_served)"
  "PriorityQueue_isEmpty (eventPriorityQueue scenario_end)"
  by (simp_all add: scenario_read_def scenario_A_served_def scenario_B_waits_def scenario_B_served_def scenario_end_def PriorityQueue_isEmpty_def
      BinaryHeap_getElementCount_def)

lemma scenario_loop: "event_loop scenario_read = Some (Returns () scenario_end)"
  apply (subst event_loop.simps, simp only: scenario_nonempty scenario_step1 outcome.case simp_thms if_True if_False)
  apply (subst event_loop.simps, simp only: scenario_nonempty scenario_step2 outcome.case simp_thms if_True if_False)
  apply (subst event_loop.simps, simp only: scenario_nonempty scenario_step3 outcome.case simp_thms if_True if_False)
  apply (subst event_loop.simps, simp only: scenario_nonempty scenario_step4 outcome.case simp_thms if_True if_False)
  apply (subst event_loop.simps, simp only: scenario_nonempty outcome.case simp_thms if_True if_False)
  done

lemma scenario_main: "main [(0, 10), (2, 3)] = Some (Returns (2, Some 4) scenario_end)"
  by (simp only: main_def scenario_reading scenario_loop outcome.case option.case)
    (simp add: averageWaitTime_def scenario_end_def)

lemma scenario_reachable:
  "reachable [(0, 10), (2, 3)] scenario_read"
  "reachable [(0, 10), (2, 3)] scenario_A_served"
  "reachable [(0, 10), (2, 3)] scenario_B_waits"
  "reachable [(0, 10), (2, 3)] scenario_B_served"
  "reachable [(0, 10), (2, 3)] scenario_end"
proof -
  show r0: "reachable [(0, 10), (2, 3)] scenario_read"
    using scenario_reading by (rule reachable.start)
  show r1: "reachable [(0, 10), (2, 3)] scenario_A_served"
    using r0 scenario_nonempty(1) scenario_step1 by (rule reachable.step)
  show r2: "reachable [(0, 10), (2, 3)] scenario_B_waits"
    using r1 scenario_nonempty(2) scenario_step2 by (rule reachable.step)
  show r3: "reachable [(0, 10), (2, 3)] scenario_B_served"
    using r2 scenario_nonempty(3) scenario_step3 by (rule reachable.step)
  show "reachable [(0, 10), (2, 3)] scenario_end"
    using r3 scenario_nonempty(4) scenario_step4 by (rule reachable.step)
qed

text \<open>The run with the tie at time 5, evaluated.\<close>

lemma replicate_4: "replicate 4 x = [x, x, x, x]"
  by (simp add: numeral_eq_Suc)

lemma tie_reading: "read_customers [(0, 5), (3, 1), (5, 1)] Sim_initial = Returns () tie_read"
  by (simp add: Sim_initial_def tie_read_def sim_defs replicate_4)

lemma tie_step1: "loop_body tie_read = Returns () tie_A_served"
  by (simp add: tie_read_def tie_A_served_def sim_defs reHeapDown.simps std_swap_def)

lemma tie_step2: "loop_body tie_A_served = Returns () tie_B_waits"
  by (simp add: tie_A_served_def tie_B_waits_def sim_defs reHeapDown.simps std_swap_def)

lemma tie_step3: "loop_body tie_B_waits = Returns () tie_departure_first"
  by (simp add: tie_B_waits_def tie_departure_first_def sim_defs reHeapDown.simps std_swap_def)

lemma tie_pending:
  "PriorityQueue_peek (eventPriorityQueue tie_B_waits) =
     Returns (Event2 DEPARTURE 5) (eventPriorityQueue tie_B_waits)"
  "heap_contents (minheap (eventPriorityQueue tie_B_waits)) =
     [Event2 DEPARTURE 5, Event3 ARRIVAL 5 1]"
  by (simp_all add: tie_B_waits_def heap_contents_def sim_defs)











section \<open>The claims about the simulation\<close>

text \<open>
  Claim C1. An arrival at time \<open>t\<close> is claimed to compare strictly less than a departure
  at the same time \<open>t\<close>, so that the ordering of the events puts the arrival first. The
  comparisons that order the events in the heap are \<^verbatim>\<open>operator<\<close> and \<^verbatim>\<open>operator>\<close>,
  which look at the time only: at every time \<open>t\<close> the arrival is not less than the
  departure and the departure is not greater than the arrival. Only \<^verbatim>\<open>operator<=\<close>,
  which the heap never calls, breaks the tie. In the run on \<open>(0, 5)\<close>, \<open>(3, 1)\<close>,
  \<open>(5, 1)\<close> the departure at time 5 is at the root of the heap while the arrival at time
  5 is pending, and it is processed first.
\<close>

theorem C1_equal_time_tie_not_broken:
  "\<not> Event_less (Event3 ARRIVAL t n) (Event2 DEPARTURE t) \<and>
   \<not> Event_greater (Event2 DEPARTURE t) (Event3 ARRIVAL t n) \<and>
   \<not> Event_less (Event2 DEPARTURE t) (Event3 ARRIVAL t n) \<and>
   read_customers [(0, 5), (3, 1), (5, 1)] Sim_initial = Returns () tie_read \<and>
   loop_body tie_read = Returns () tie_A_served \<and>
   loop_body tie_A_served = Returns () tie_B_waits \<and>
   heap_contents (minheap (eventPriorityQueue tie_B_waits)) =
     [Event2 DEPARTURE 5, Event3 ARRIVAL 5 1] \<and>
   PriorityQueue_peek (eventPriorityQueue tie_B_waits) =
     Returns (Event2 DEPARTURE 5) (eventPriorityQueue tie_B_waits) \<and>
   loop_body tie_B_waits = Returns () tie_departure_first \<and>
   printed tie_departure_first = [(''arrival'', 0), (''arrival'', 3), (''departure'', 5)]"
proof -
  have "\<not> Event_less (Event3 ARRIVAL t n) (Event2 DEPARTURE t)"
    "\<not> Event_greater (Event2 DEPARTURE t) (Event3 ARRIVAL t n)"
    "\<not> Event_less (Event2 DEPARTURE t) (Event3 ARRIVAL t n)"
    by (simp_all add: Event_less_def Event_greater_def Event3_def Event2_def)
  moreover have "printed tie_departure_first =
      [(''arrival'', 0), (''arrival'', 3), (''departure'', 5)]"
    by (simp add: tie_departure_first_def)
  ultimately show ?thesis
    using tie_reading tie_step1 tie_step2 tie_step3 tie_pending by simp
qed

text \<open>
  Claim C5. The input \<open>(0, 10)\<close>, \<open>(2, 3)\<close>: customer A is served at once at time 0
  and the departure is scheduled at 10; customer B arrives at 2 and waits in the line;
  at time 10 B is taken from the line with wait time \<open>10 - 2 = 8\<close> and the departure
  is scheduled at 13; after the departure at 13 the loop ends, and \<^verbatim>\<open>main\<close> reports 2
  customers and the average wait time 4.
\<close>

theorem C5_scenario_two_customers:
  "read_customers [(0, 10), (2, 3)] Sim_initial = Returns () scenario_read \<and>
   loop_body scenario_read = Returns () scenario_A_served \<and>
   simulationTime scenario_A_served = 0 \<and> \<not> tellerAvailable scenario_A_served \<and>
   Queue_isEmpty (bankLine scenario_A_served) \<and>
   heap_contents (minheap (eventPriorityQueue scenario_A_served)) =
     [Event3 ARRIVAL 2 3, Event2 DEPARTURE 10] \<and>
   loop_body scenario_A_served = Returns () scenario_B_waits \<and>
   simulationTime scenario_B_waits = 2 \<and> \<not> tellerAvailable scenario_B_waits \<and>
   Queue_peek (bankLine scenario_B_waits) =
     Returns (Event3 ARRIVAL 2 3) (bankLine scenario_B_waits) \<and>
   size' (bankLine scenario_B_waits) = 1 \<and>
   heap_contents (minheap (eventPriorityQueue scenario_B_waits)) = [Event2 DEPARTURE 10] \<and>
   loop_body scenario_B_waits = Returns () scenario_B_served \<and>
   simulationTime scenario_B_served = 10 \<and>
   cumulativeWaitTime scenario_B_served = cumulativeWaitTime scenario_B_waits + (10 - 2) \<and>
   cumulativeWaitTime scenario_B_served = 8 \<and> Queue_isEmpty (bankLine scenario_B_served) \<and>
   heap_contents (minheap (eventPriorityQueue scenario_B_served)) = [Event2 DEPARTURE 13] \<and>
   loop_body scenario_B_served = Returns () scenario_end \<and>
   simulationTime scenario_end = 13 \<and> tellerAvailable scenario_end \<and>
   PriorityQueue_isEmpty (eventPriorityQueue scenario_end) \<and>
   printed scenario_end =
     [(''arrival'', 0), (''arrival'', 2), (''departure'', 10), (''departure'', 13)] \<and>
   event_loop scenario_read = Some (Returns () scenario_end) \<and>
   customerCount scenario_end = 2 \<and> averageWaitTime scenario_end = Some 4 \<and>
   main [(0, 10), (2, 3)] = Some (Returns (2, Some 4) scenario_end)"
proof -
  have "Queue_peek (bankLine scenario_B_waits) =
      Returns (Event3 ARRIVAL 2 3) (bankLine scenario_B_waits)"
    by (simp add: scenario_B_waits_def Queue_peek_def Queue_isEmpty_def)
  moreover have "heap_contents (minheap (eventPriorityQueue scenario_A_served)) =
      [Event3 ARRIVAL 2 3, Event2 DEPARTURE 10]"
    "heap_contents (minheap (eventPriorityQueue scenario_B_waits)) = [Event2 DEPARTURE 10]"
    "heap_contents (minheap (eventPriorityQueue scenario_B_served)) = [Event2 DEPARTURE 13]"
    by (simp_all add: heap_contents_def scenario_A_served_def scenario_B_waits_def
        scenario_B_served_def)
  moreover have "Queue_isEmpty (bankLine scenario_A_served)"
    "Queue_isEmpty (bankLine scenario_B_served)"
    by (simp_all add: Queue_isEmpty_def Queue_new_def scenario_A_served_def
        scenario_B_served_def)
  moreover have "simulationTime scenario_A_served = 0" "\<not> tellerAvailable scenario_A_served"
    "simulationTime scenario_B_waits = 2" "\<not> tellerAvailable scenario_B_waits"
    "size' (bankLine scenario_B_waits) = 1" "simulationTime scenario_B_served = 10"
    "cumulativeWaitTime scenario_B_served = cumulativeWaitTime scenario_B_waits + (10 - 2)"
    "cumulativeWaitTime scenario_B_served = 8"
    "simulationTime scenario_end = 13" "tellerAvailable scenario_end"
    "printed scenario_end =
      [(''arrival'', 0), (''arrival'', 2), (''departure'', 10), (''departure'', 13)]"
    "customerCount scenario_end = 2"
    by (simp_all add: scenario_A_served_def scenario_B_waits_def scenario_B_served_def
        scenario_end_def)
  moreover have "averageWaitTime scenario_end = Some 4"
    by (simp add: averageWaitTime_def scenario_end_def)
  ultimately show ?thesis
    using scenario_reading scenario_step1 scenario_step2 scenario_step3 scenario_step4
      scenario_nonempty(5) scenario_loop scenario_main
    by simp
qed

text \<open>
  Claim C8. In every state the event loop reaches, starting from the state in which the
  input has been read (teller available, empty line), the teller is available exactly
  when the waiting line is empty and no customer is in service; in particular an
  available teller implies an empty line.
\<close>

theorem C8_teller_available_iff_idle:
  assumes "reachable input s"
  shows "(tellerAvailable s \<longleftrightarrow> Queue_isEmpty (bankLine s) \<and> \<not> in_service s) \<and>
         (tellerAvailable s \<longrightarrow> Queue_isEmpty (bankLine s))"
proof -
  from reachable_inv [OF assms] obtain line where l: "sim_ok s line" "teller_inv (view s line)"
    by blast
  have emp: "Queue_isEmpty (bankLine s) \<longleftrightarrow> line = []"
    using l(1) by (simp add: sim_ok_def queue_ok_isEmpty)
  have serv: "in_service s \<longleftrightarrow> (\<exists>e \<in># pq_contents (eventPriorityQueue s). \<not> isArrival e)"
    by (simp add: in_service_def pq_contents_def)
  show ?thesis
  proof (cases "tellerAvailable s")
    case True
    then show ?thesis using l(2) emp serv by (auto simp: teller_inv_def view_def)
  next
    case False
    then have "size {#e \<in># pq_contents (eventPriorityQueue s). \<not> isArrival e#} = 1"
      using l(2) by (simp add: teller_inv_def view_def)
    then have "\<not> (\<forall>e \<in># pq_contents (eventPriorityQueue s). isArrival e)"
      using no_departure_iff [of "pq_contents (eventPriorityQueue s)"] by simp
    then show ?thesis using False serv by auto
  qed
qed

theorem C8_witness:
  "reachable [(0, 10), (2, 3)] scenario_end \<and> tellerAvailable scenario_end \<and>
   Queue_isEmpty (bankLine scenario_end) \<and> \<not> in_service scenario_end \<and>
   reachable [(0, 10), (2, 3)] scenario_B_waits \<and> \<not> tellerAvailable scenario_B_waits \<and>
   \<not> Queue_isEmpty (bankLine scenario_B_waits)"
proof -
  have a: "tellerAvailable scenario_end" by (simp add: scenario_end_def)
  have b: "\<not> Queue_isEmpty (bankLine scenario_B_waits)"
    by (simp add: scenario_B_waits_def Queue_isEmpty_def)
  show ?thesis
    using C8_teller_available_iff_idle [OF scenario_reachable(5)]
      C8_teller_available_iff_idle [OF scenario_reachable(3)] scenario_reachable(3,5) a b
    by blast
qed




end
